theory Spec2Isabelle
  imports Main "HOL-Library.Word" "HOL-Library.Monad_Syntax"
begin

section \<open>The hash table of munged (src/munged/hash.c)\<close>

text \<open>
  The development embeds \<^verbatim>\<open>hash.c\<close>: the string hash, the pooled node allocator and
  the chained hash table. Pointers are addresses into an explicit store of node structs;
  \<^verbatim>\<open>NULL\<close> is \<open>None\<close>. The locking calls (\<^verbatim>\<open>lsd_mutex_lock\<close> and friends) protect
  whole operations and have no sequential effect, so they are left out. A function whose
  loop follows \<^verbatim>\<open>next\<close> pointers returns an \<open>option\<close>: \<open>None\<close> stands for a walk
  that never ends, and the theorems below show that on a well-formed table every
  operation returns. The callbacks act on the caller's state only; they neither call
  back into the table nor write to nodes. One table is followed at a time.
\<close>

subsection \<open>Key hashing\<close>

text \<open>
  \<^verbatim>\<open>hash_key_string\<close>: \<open>hval\<close> is an \<^verbatim>\<open>unsigned int\<close>, a 32-bit word that wraps. The
  loop reads bytes up to the terminating NUL; the list is the memory before it, and a
  zero byte inside the list ends the loop as it would in memory. The body is
  \<^verbatim>\<open>hval += (multiplier * hval) + *p\<close> with \<^verbatim>\<open>multiplier = 31\<close>.
\<close>

definition multiplier :: "32 word" where
  "multiplier = 31"

fun hash_key_string_loop :: "32 word \<Rightarrow> string \<Rightarrow> 32 word" where
  "hash_key_string_loop hval [] = hval"
| "hash_key_string_loop hval (c # cs) =
     (if c = CHR 0x00 then hval
      else hash_key_string_loop (hval + ((multiplier * hval) + of_char c)) cs)"

definition hash_key_string :: "string \<Rightarrow> 32 word" where
  "hash_key_string str = hash_key_string_loop 0 str"

text \<open>The fold the specification describes: \<open>hval = hval * 31 + byte\<close>, from zero.\<close>

definition spec_hash_fold :: "string \<Rightarrow> 32 word" where
  "spec_hash_fold str = foldl (\<lambda>hval c. hval * 31 + of_char c) 0 str"

subsection \<open>Constants\<close>

definition HASH_DEF_SIZE :: int where
  "HASH_DEF_SIZE = 1213"

text \<open>The largest value of a C \<^verbatim>\<open>int\<close> (32 bits).\<close>

definition INT_MAX :: int where
  "INT_MAX = 2147483647"

definition HASH_NODE_ALLOC_NUM :: nat where
  "HASH_NODE_ALLOC_NUM = 1024"

text \<open>
  The error numbers come from \<^verbatim>\<open>errno.h\<close> of the platform (the Linux values are
  used); \<open>0\<close> is the cleared classification.
\<close>

definition EINVAL :: int where "EINVAL = 22"
definition EEXIST :: int where "EEXIST = 17"
definition ENOMEM :: int where "ENOMEM = 12"

text \<open>Object sizes of an LP64 build without the mutex member.\<close>

definition sizeof_ptr :: nat where "sizeof_ptr = 8"
definition sizeof_hash_node :: nat where "sizeof_hash_node = 24"
definition sizeof_hash :: nat where "sizeof_hash = 40"

subsection \<open>Data types\<close>

type_synonym addr = nat

text \<open>
  \<^verbatim>\<open>struct hash_node\<close>. The field \<^verbatim>\<open>next\<close> is called \<open>nextp\<close> here. A \<^verbatim>\<open>void *\<close>
  is an \<open>option\<close>: \<open>'k\<close> and \<open>'d\<close> are the caller's key and item objects.
\<close>

record ('k, 'd) hash_node =
  nextp :: "addr option"
  data :: "'d option"
  hkey :: "'k option"

text \<open>
  The callback types of \<^verbatim>\<open>hash.h\<close>. The comparison and the key hash are pure; the
  deletion function and the visitor of \<^verbatim>\<open>hash_delete_if\<close> act on the caller's own
  state \<open>'w\<close>, which the model threads through every call.
\<close>

type_synonym 'k hash_cmp_f = "'k option \<Rightarrow> 'k option \<Rightarrow> int"
type_synonym 'k hash_key_f = "'k option \<Rightarrow> 32 word"
type_synonym ('d, 'w) hash_del_f = "'d option \<Rightarrow> 'w \<Rightarrow> 'w"
type_synonym ('k, 'd, 'a, 'w) hash_arg_f = "'d option \<Rightarrow> 'k option \<Rightarrow> 'a \<Rightarrow> 'w \<Rightarrow> int \<times> 'w"

text \<open>
  \<^verbatim>\<open>struct hash\<close>; \<^verbatim>\<open>size\<close> is called \<open>size_h\<close>. The bucket array is the list of
  chain heads. \<open>cmp_f\<close> and \<open>key_f\<close> are never \<^verbatim>\<open>NULL\<close> in a table that
  \<^verbatim>\<open>hash_create\<close> returned; \<open>del_f\<close> may be. The two \<^verbatim>\<open>int\<close> fields are
  unbounded integers here. The size is bounded where it is used (\<open>heap_ok\<close> below).
  \<open>count\<close> is only ever set to zero, incremented (\<^verbatim>\<open>hash_insert\<close>) and decremented
  (\<^verbatim>\<open>hash_remove\<close>, \<^verbatim>\<open>hash_delete_if\<close>); the model's \<open>count + 1\<close> is the C
  \<^verbatim>\<open>h->count++\<close> as long as \<open>count < INT_MAX\<close>. At \<open>count = INT_MAX\<close> the C increment is
  a signed overflow, which is undefined: the model says nothing true of the code there,
  and a statement about the count after an insertion has to assume \<open>count < INT_MAX\<close>.
\<close>

record ('k, 'd, 'w) hash =
  count :: int
  size_h :: int
  table :: "addr option list"
  cmp_f :: "'k hash_cmp_f"
  del_f :: "('d, 'w) hash_del_f option"
  key_f :: "'k hash_key_f"

text \<open>
  The state outside the table object: the store of node structs, the two file-scope list
  heads, \<^verbatim>\<open>errno\<close>, the system allocator (fresh addresses from \<open>brk\<close> upwards while
  \<open>avail\<close> bytes last) and the caller's state \<open>ext\<close>.
\<close>

record ('k, 'd, 'w) world =
  nodes :: "addr \<Rightarrow> ('k, 'd) hash_node"
  hash_mem_list :: "addr option"
  hash_free_list :: "addr option"
  errno :: int
  brk :: nat
  avail :: nat
  ext :: 'w

subsection \<open>The system allocator\<close>

definition malloc :: "nat \<Rightarrow> ('k, 'd, 'w) world \<Rightarrow> addr option \<times> ('k, 'd, 'w) world" where
  "malloc n w =
     (if n \<le> avail w then (Some (brk w), w\<lparr>brk := brk w + n, avail := avail w - n\<rparr>)
      else (None, w\<lparr>errno := ENOMEM\<rparr>))"

definition calloc :: "nat \<Rightarrow> nat \<Rightarrow> ('k, 'd, 'w) world \<Rightarrow> addr option \<times> ('k, 'd, 'w) world" where
  "calloc n sz w = malloc (n * sz) w"

text \<open>Released memory is not handed out again by this allocator.\<close>

definition free :: "addr \<Rightarrow> ('k, 'd, 'w) world \<Rightarrow> ('k, 'd, 'w) world" where
  "free p w = w"

subsection \<open>The node pool\<close>

definition zero_node :: "('k, 'd) hash_node" where
  "zero_node = \<lparr>nextp = None, data = None, hkey = None\<rparr>"

text \<open>\<^verbatim>\<open>&hash_free_list[i]\<close> for the array of nodes that starts at \<open>fl\<close>.\<close>

definition elem :: "addr \<Rightarrow> nat \<Rightarrow> addr" where
  "elem fl i = fl + i * sizeof_hash_node"

text \<open>
  The loop of \<^verbatim>\<open>hash_node_alloc\<close> that threads the slots of a new block, from index
  \<open>i\<close>, with the assignment of \<^verbatim>\<open>NULL\<close> to the last slot that follows it.
\<close>

function thread_slots ::
  "addr \<Rightarrow> nat \<Rightarrow> (addr \<Rightarrow> ('k, 'd) hash_node) \<Rightarrow> (addr \<Rightarrow> ('k, 'd) hash_node)" where
  "thread_slots fl i m =
     (if i < HASH_NODE_ALLOC_NUM - 1
      then thread_slots fl (i + 1) (m(elem fl i := (m (elem fl i))\<lparr>nextp := Some (elem fl (i + 1))\<rparr>))
      else m(elem fl i := (m (elem fl i))\<lparr>nextp := None\<rparr>))"
  by pat_completeness auto
termination
  by (relation "measure (\<lambda>(fl, i, m). HASH_NODE_ALLOC_NUM - 1 - i)") auto

declare thread_slots.simps [simp del]

definition hash_node_alloc :: "('k, 'd, 'w) world \<Rightarrow> addr option \<times> ('k, 'd, 'w) world" where
  "hash_node_alloc w0 =
     (let w1 =
        (if hash_free_list w0 = None then
           (let sz = sizeof_ptr + (HASH_NODE_ALLOC_NUM * sizeof_hash_node);
                (p, w) = malloc sz w0
            in case p of
                 None \<Rightarrow> w
               | Some b \<Rightarrow>
                   (let w = w\<lparr>nodes := (nodes w)(b := (nodes w b)\<lparr>nextp := hash_mem_list w\<rparr>)\<rparr>;
                        w = w\<lparr>hash_mem_list := Some b\<rparr>;
                        w = w\<lparr>hash_free_list := Some (b + sizeof_ptr)\<rparr>
                    in w\<lparr>nodes := thread_slots (b + sizeof_ptr) 0 (nodes w)\<rparr>))
         else w0)
      in case hash_free_list w1 of
           Some p \<Rightarrow>
             (Some p, w1\<lparr>hash_free_list := nextp (nodes w1 p), nodes := (nodes w1)(p := zero_node)\<rparr>)
         | None \<Rightarrow> (None, w1\<lparr>errno := ENOMEM\<rparr>))"

definition hash_node_free :: "addr \<Rightarrow> ('k, 'd, 'w) world \<Rightarrow> ('k, 'd, 'w) world" where
  "hash_node_free node w =
     w\<lparr>nodes := (nodes w)(node := (nodes w node)\<lparr>nextp := hash_free_list w\<rparr>),
       hash_free_list := Some node\<rparr>"

subsection \<open>Creating and querying a table\<close>

definition hash_create ::
  "int \<Rightarrow> 'k hash_key_f option \<Rightarrow> 'k hash_cmp_f option \<Rightarrow> ('d, 'w) hash_del_f option \<Rightarrow>
   ('k, 'd, 'w) world \<Rightarrow> ('k, 'd, 'w) hash option \<times> ('k, 'd, 'w) world" where
  "hash_create sz keyf cmpf delf w0 =
     (case (cmpf, keyf) of
        (Some c, Some k) \<Rightarrow>
          (let sz = (if sz \<le> 0 then HASH_DEF_SIZE else sz);
               (hp, w) = malloc sizeof_hash w0
           in case hp of
                None \<Rightarrow> (None, w)
              | Some ha \<Rightarrow>
                  (let (tp, w) = calloc (nat sz) sizeof_ptr w
                   in case tp of
                        None \<Rightarrow> (None, free ha w)
                      | Some ta \<Rightarrow>
                          (Some \<lparr>count = 0, size_h = sz, table = replicate (nat sz) None,
                                 cmp_f = c, del_f = delf, key_f = k\<rparr>, w)))
      | _ \<Rightarrow> (None, w0\<lparr>errno := EINVAL\<rparr>))"

definition hash_is_empty :: "('k, 'd, 'w) hash option \<Rightarrow> ('k, 'd, 'w) world \<Rightarrow> int \<times> ('k, 'd, 'w) world" where
  "hash_is_empty h w =
     (case h of
        None \<Rightarrow> (- 1, w\<lparr>errno := EINVAL\<rparr>)
      | Some t \<Rightarrow> ((if count t = 0 then 1 else 0), w))"

definition hash_count :: "('k, 'd, 'w) hash option \<Rightarrow> ('k, 'd, 'w) world \<Rightarrow> int \<times> ('k, 'd, 'w) world" where
  "hash_count h w =
     (case h of
        None \<Rightarrow> (- 1, w\<lparr>errno := EINVAL\<rparr>)
      | Some t \<Rightarrow> (count t, w))"

text \<open>
  \<^verbatim>\<open>slot = h->key_f (key) % h->size\<close>: the \<^verbatim>\<open>int\<close> size is converted to
  \<^verbatim>\<open>unsigned int\<close> and the remainder is taken there.
\<close>

definition slot_of :: "('k, 'd, 'w) hash \<Rightarrow> 'k option \<Rightarrow> nat" where
  "slot_of h key = unat (key_f h key mod word_of_int (size_h h))"

subsection \<open>Lookup\<close>

text \<open>
  The chain walk of \<^verbatim>\<open>hash_find\<close> from node pointer \<open>p\<close>. A walk over a cyclic
  chain never returns; its value is then \<open>None\<close>.
\<close>

partial_function (option) find_loop ::
  "(addr \<Rightarrow> ('k, 'd) hash_node) \<Rightarrow> 'k hash_cmp_f \<Rightarrow> 'k option \<Rightarrow> addr option \<Rightarrow> 'd option option" where
  "find_loop m cmp key p =
     (case p of
        None \<Rightarrow> Some None
      | Some a \<Rightarrow>
          (let cmpval = cmp (hkey (m a)) key
           in if cmpval < 0 then find_loop m cmp key (nextp (m a))
              else if cmpval = 0 then Some (data (m a))
              else Some None))"

definition hash_find ::
  "('k, 'd, 'w) hash option \<Rightarrow> 'k option \<Rightarrow> ('k, 'd, 'w) world \<Rightarrow>
   ('d option \<times> ('k, 'd, 'w) world) option" where
  "hash_find h key w0 =
     (case h of
        None \<Rightarrow> Some (None, w0\<lparr>errno := EINVAL\<rparr>)
      | Some t \<Rightarrow>
          if key = None then Some (None, w0\<lparr>errno := EINVAL\<rparr>)
          else
            (let w = w0\<lparr>errno := 0\<rparr>;
                 slot = slot_of t key
             in map_option (\<lambda>d. (d, w)) (find_loop (nodes w) (cmp_f t) key (table t ! slot))))"

subsection \<open>Insertion and removal\<close>

text \<open>
  \<^verbatim>\<open>struct hash_node **pp\<close> points either at a bucket of the table
  (\<^verbatim>\<open>&h->table[slot]\<close>) or at the \<^verbatim>\<open>next\<close> field of a node (\<^verbatim>\<open>&p->next\<close>).
\<close>

datatype loc = Bucket nat | NextOf addr

fun deref :: "addr option list \<Rightarrow> (addr \<Rightarrow> ('k, 'd) hash_node) \<Rightarrow> loc \<Rightarrow> addr option" where
  "deref tbl m (Bucket i) = tbl ! i"
| "deref tbl m (NextOf a) = nextp (m a)"

text \<open>The assignment \<^verbatim>\<open>*pp = v\<close>.\<close>

fun assign ::
  "loc \<Rightarrow> addr option \<Rightarrow> ('k, 'd, 'w) hash \<Rightarrow> ('k, 'd, 'w) world \<Rightarrow>
   ('k, 'd, 'w) hash \<times> ('k, 'd, 'w) world" where
  "assign (Bucket i) v h w = (h\<lparr>table := (table h)[i := v]\<rparr>, w)"
| "assign (NextOf a) v h w = (h, w\<lparr>nodes := (nodes w)(a := (nodes w a)\<lparr>nextp := v\<rparr>)\<rparr>)"

text \<open>
  The walk shared by \<^verbatim>\<open>hash_insert\<close> and \<^verbatim>\<open>hash_remove\<close>: it returns the final
  \<open>pp\<close> and whether it stopped on a node whose key compares equal (\<open>cmpval = 0\<close>).
\<close>

partial_function (option) walk_loop ::
  "addr option list \<Rightarrow> (addr \<Rightarrow> ('k, 'd) hash_node) \<Rightarrow> 'k hash_cmp_f \<Rightarrow> 'k option \<Rightarrow> loc \<Rightarrow>
   (loc \<times> bool) option" where
  "walk_loop tbl m cmp key pp =
     (case deref tbl m pp of
        None \<Rightarrow> Some (pp, False)
      | Some p \<Rightarrow>
          (let cmpval = cmp (hkey (m p)) key
           in if cmpval < 0 then walk_loop tbl m cmp key (NextOf p)
              else if cmpval = 0 then Some (pp, True)
              else Some (pp, False)))"

definition hash_insert ::
  "('k, 'd, 'w) hash option \<Rightarrow> 'k option \<Rightarrow> 'd option \<Rightarrow> ('k, 'd, 'w) world \<Rightarrow>
   ('d option \<times> ('k, 'd, 'w) hash option \<times> ('k, 'd, 'w) world) option" where
  "hash_insert h key dat w0 =
     (case h of
        None \<Rightarrow> Some (None, h, w0\<lparr>errno := EINVAL\<rparr>)
      | Some t \<Rightarrow>
          if key = None \<or> dat = None then Some (None, h, w0\<lparr>errno := EINVAL\<rparr>)
          else
            (case walk_loop (table t) (nodes w0) (cmp_f t) key (Bucket (slot_of t key)) of
               None \<Rightarrow> None
             | Some (pp, True) \<Rightarrow> Some (None, h, w0\<lparr>errno := EEXIST\<rparr>)
             | Some (pp, False) \<Rightarrow>
                 (case hash_node_alloc w0 of
                    (None, w) \<Rightarrow> Some (None, h, w)
                  | (Some p, w) \<Rightarrow>
                      (let w = w\<lparr>nodes := (nodes w)(p := (nodes w p)\<lparr>hkey := key\<rparr>)\<rparr>;
                           w = w\<lparr>nodes := (nodes w)(p := (nodes w p)\<lparr>data := dat\<rparr>)\<rparr>;
                           w = w\<lparr>nodes := (nodes w)(p := (nodes w p)\<lparr>nextp := deref (table t) (nodes w) pp\<rparr>)\<rparr>;
                           (t, w) = assign pp (Some p) t w;
                           t = t\<lparr>count := count t + 1\<rparr>  \<comment> \<open>\<^verbatim>\<open>h->count++\<close>, defined in C for \<open>count t < INT_MAX\<close>\<close>
                       in Some (dat, Some t, w)))))"

definition hash_remove ::
  "('k, 'd, 'w) hash option \<Rightarrow> 'k option \<Rightarrow> ('k, 'd, 'w) world \<Rightarrow>
   ('d option \<times> ('k, 'd, 'w) hash option \<times> ('k, 'd, 'w) world) option" where
  "hash_remove h key w0 =
     (case h of
        None \<Rightarrow> Some (None, h, w0\<lparr>errno := EINVAL\<rparr>)
      | Some t \<Rightarrow>
          if key = None then Some (None, h, w0\<lparr>errno := EINVAL\<rparr>)
          else
            (let w = w0\<lparr>errno := 0\<rparr>
             in case walk_loop (table t) (nodes w) (cmp_f t) key (Bucket (slot_of t key)) of
                  None \<Rightarrow> None
                | Some (pp, False) \<Rightarrow> Some (None, h, w)
                | Some (pp, True) \<Rightarrow>
                    \<comment> \<open>the node \<open>p\<close> on which the walk stopped is \<open>*pp\<close>\<close>
                    (case deref (table t) (nodes w) pp of
                       None \<Rightarrow> Some (None, h, w)
                     | Some p \<Rightarrow>
                         (let dat = data (nodes w p);
                              (t, w) = assign pp (nextp (nodes w p)) t w;
                              w = hash_node_free p w;
                              t = t\<lparr>count := count t - 1\<rparr>
                          in Some (dat, Some t, w)))))"

subsection \<open>Bulk operations\<close>

text \<open>The call \<^verbatim>\<open>if (h->del_f) h->del_f (p->data)\<close>.\<close>

definition call_del_f :: "('k, 'd, 'w) hash \<Rightarrow> 'd option \<Rightarrow> ('k, 'd, 'w) world \<Rightarrow> ('k, 'd, 'w) world" where
  "call_del_f h d w = (case del_f h of None \<Rightarrow> w | Some f \<Rightarrow> w\<lparr>ext := f d (ext w)\<rparr>)"

text \<open>
  The inner loop of \<^verbatim>\<open>hash_reset\<close> over one chain, from node pointer \<open>p\<close>:
  \<^verbatim>\<open>q = p->next\<close> is read before the node is released.
\<close>

partial_function (option) reset_chain ::
  "('k, 'd, 'w) hash \<Rightarrow> addr option \<Rightarrow> ('k, 'd, 'w) world \<Rightarrow> ('k, 'd, 'w) world option" where
  "reset_chain h p w =
     (case p of
        None \<Rightarrow> Some w
      | Some a \<Rightarrow>
          (let q = nextp (nodes w a);
               w = call_del_f h (data (nodes w a)) w;
               w = hash_node_free a w
           in reset_chain h q w))"

partial_function (option) reset_buckets ::
  "int \<Rightarrow> ('k, 'd, 'w) hash \<Rightarrow> ('k, 'd, 'w) world \<Rightarrow>
   (('k, 'd, 'w) hash \<times> ('k, 'd, 'w) world) option" where
  "reset_buckets i h w =
     (if i < size_h h
      then do {
        w' \<leftarrow> reset_chain h (table h ! nat i) w;
        reset_buckets (i + 1) (h\<lparr>table := (table h)[nat i := None]\<rparr>) w'
      }
      else Some (h, w))"

definition hash_reset ::
  "('k, 'd, 'w) hash option \<Rightarrow> ('k, 'd, 'w) world \<Rightarrow>
   (('k, 'd, 'w) hash option \<times> ('k, 'd, 'w) world) option" where
  "hash_reset h w =
     (case h of
        None \<Rightarrow> Some (h, w\<lparr>errno := EINVAL\<rparr>)
      | Some t \<Rightarrow>
          do {
            (t, w) \<leftarrow> reset_buckets 0 t w;
            Some (Some (t\<lparr>count := 0\<rparr>), w)
          })"

text \<open>
  The \<^verbatim>\<open>while\<close> loop of \<^verbatim>\<open>hash_delete_if\<close> over one chain; the loop state is the table,
  the world and the counter \<open>n\<close>.
\<close>

partial_function (option) delete_if_chain ::
  "('k, 'd, 'a, 'w) hash_arg_f \<Rightarrow> 'a \<Rightarrow> loc \<Rightarrow>
   ('k, 'd, 'w) hash \<times> ('k, 'd, 'w) world \<times> int \<Rightarrow>
   (('k, 'd, 'w) hash \<times> ('k, 'd, 'w) world \<times> int) option" where
  "delete_if_chain argf arg pp s =
     (case s of (h, w, n) \<Rightarrow>
        (case deref (table h) (nodes w) pp of
           None \<Rightarrow> Some (h, w, n)
         | Some p \<Rightarrow>
             (let (r, e) = argf (data (nodes w p)) (hkey (nodes w p)) arg (ext w);
                  w = w\<lparr>ext := e\<rparr>
              in if r > 0 then
                   (let w = call_del_f h (data (nodes w p)) w;
                        (h, w) = assign pp (nextp (nodes w p)) h w;
                        w = hash_node_free p w;
                        h = h\<lparr>count := count h - 1\<rparr>
                    in delete_if_chain argf arg pp (h, w, n + 1))
                 else delete_if_chain argf arg (NextOf p) (h, w, n))))"

partial_function (option) delete_if_buckets ::
  "('k, 'd, 'a, 'w) hash_arg_f \<Rightarrow> 'a \<Rightarrow> int \<Rightarrow>
   ('k, 'd, 'w) hash \<times> ('k, 'd, 'w) world \<times> int \<Rightarrow>
   (('k, 'd, 'w) hash \<times> ('k, 'd, 'w) world \<times> int) option" where
  "delete_if_buckets argf arg i s =
     (if i < size_h (fst s)
      then do {
        s' \<leftarrow> delete_if_chain argf arg (Bucket (nat i)) s;
        delete_if_buckets argf arg (i + 1) s'
      }
      else Some s)"

definition hash_delete_if ::
  "('k, 'd, 'w) hash option \<Rightarrow> ('k, 'd, 'a, 'w) hash_arg_f option \<Rightarrow> 'a \<Rightarrow> ('k, 'd, 'w) world \<Rightarrow>
   (int \<times> ('k, 'd, 'w) hash option \<times> ('k, 'd, 'w) world) option" where
  "hash_delete_if h argf arg w =
     (case (h, argf) of
        (Some t, Some f) \<Rightarrow>
          do {
            (t, w, n) \<leftarrow> delete_if_buckets f arg 0 (t, w, 0);
            Some (n, Some t, w)
          }
      | _ \<Rightarrow> Some (- 1, h, w\<lparr>errno := EINVAL\<rparr>))"

section \<open>Abstraction and invariants\<close>

text \<open>
  \<open>chain m p as\<close>: following \<^verbatim>\<open>next\<close> from pointer \<open>p\<close> in store \<open>m\<close> visits exactly
  the addresses \<open>as\<close>, in this order, and then reaches \<^verbatim>\<open>NULL\<close>.
\<close>

primrec chain :: "(addr \<Rightarrow> ('k, 'd) hash_node) \<Rightarrow> addr option \<Rightarrow> addr list \<Rightarrow> bool" where
  "chain m p [] \<longleftrightarrow> p = None"
| "chain m p (a # as) \<longleftrightarrow> p = Some a \<and> chain m (nextp (m a)) as"

text \<open>
  The shape of a table in a world: \<open>ass\<close> lists the node addresses of every bucket's
  chain and \<open>fs\<close> those of the free list. The size is a positive \<^verbatim>\<open>int\<close>, the bucket
  array has that many entries, no node is on two lists or twice on one, and every node
  lies in memory that the system allocator has handed out.
\<close>

definition heap_ok ::
  "('k, 'd, 'w) hash \<Rightarrow> ('k, 'd, 'w) world \<Rightarrow> addr list list \<Rightarrow> addr list \<Rightarrow> bool" where
  "heap_ok h w ass fs \<longleftrightarrow>
     0 < size_h h \<and> size_h h < 2 ^ 31 \<and> length (table h) = nat (size_h h) \<and>
     list_all2 (chain (nodes w)) (table h) ass \<and>
     chain (nodes w) (hash_free_list w) fs \<and>
     distinct (concat ass @ fs) \<and>
     list_all (\<lambda>a. a < brk w) (concat ass @ fs)"

text \<open>Every linked node carries a key and an item (\<^verbatim>\<open>hash_insert\<close> refuses \<^verbatim>\<open>NULL\<close>).\<close>

definition inv_live :: "('k, 'd, 'w) world \<Rightarrow> addr list list \<Rightarrow> bool" where
  "inv_live w ass \<longleftrightarrow>
     list_all (\<lambda>a. hkey (nodes w a) \<noteq> None \<and> data (nodes w a) \<noteq> None) (concat ass)"

text \<open>The keys of a chain, in chain order.\<close>

definition keys_of :: "('k, 'd, 'w) world \<Rightarrow> addr list \<Rightarrow> 'k option list" where
  "keys_of w as = map (\<lambda>a. hkey (nodes w a)) as"

text \<open>The three invariants of the data model.\<close>

definition inv_count :: "('k, 'd, 'w) hash \<Rightarrow> addr list list \<Rightarrow> bool" where
  "inv_count h ass \<longleftrightarrow> count h = int (sum_list (map length ass))"

definition inv_nodup :: "('k, 'd, 'w) hash \<Rightarrow> ('k, 'd, 'w) world \<Rightarrow> addr list list \<Rightarrow> bool" where
  "inv_nodup h w ass \<longleftrightarrow>
     list_all (\<lambda>as. sorted_wrt (\<lambda>x y. cmp_f h x y \<noteq> 0 \<and> cmp_f h y x \<noteq> 0) (keys_of w as)) ass"

definition inv_ascending :: "('k, 'd, 'w) hash \<Rightarrow> ('k, 'd, 'w) world \<Rightarrow> addr list list \<Rightarrow> bool" where
  "inv_ascending h w ass \<longleftrightarrow>
     list_all (\<lambda>as. sorted_wrt (\<lambda>x y. cmp_f h x y \<le> 0) (keys_of w as)) ass"

text \<open>Every node is in the bucket of its key.\<close>

definition inv_placed :: "('k, 'd, 'w) hash \<Rightarrow> ('k, 'd, 'w) world \<Rightarrow> addr list list \<Rightarrow> bool" where
  "inv_placed h w ass \<longleftrightarrow>
     list_all (\<lambda>(i, as). list_all (\<lambda>a. slot_of h (hkey (nodes w a)) = i) as) (enumerate 0 ass)"

text \<open>
  The contract on the comparison callback: on keys that are not \<^verbatim>\<open>NULL\<close> the sign of
  its result is a strict total order (swapping the arguments swaps the sign, and
  \<open>\<le>\<close> is transitive). The contract on the key hash: keys that compare equal hash
  alike.
\<close>

definition cmp_ok :: "'k hash_cmp_f \<Rightarrow> bool" where
  "cmp_ok cmp \<longleftrightarrow>
     (\<forall>a b. (cmp (Some a) (Some b) < 0) = (0 < cmp (Some b) (Some a))) \<and>
     (\<forall>a b c. cmp (Some a) (Some b) \<le> 0 \<and> cmp (Some b) (Some c) \<le> 0 \<longrightarrow> cmp (Some a) (Some c) \<le> 0)"

definition key_ok :: "('k, 'd, 'w) hash \<Rightarrow> bool" where
  "key_ok h \<longleftrightarrow>
     (\<forall>a b. cmp_f h (Some a) (Some b) = 0 \<longrightarrow> key_f h (Some a) = key_f h (Some b))"

section \<open>Auxiliary definitions for the proofs\<close>

text \<open>
  Where the walk of \<^verbatim>\<open>hash_insert\<close> and \<^verbatim>\<open>hash_remove\<close> leaves \<open>pp\<close> after it has
  passed the nodes \<open>as1\<close>, starting from \<open>pp\<close>.
\<close>

definition walk_pp :: "loc \<Rightarrow> addr list \<Rightarrow> loc" where
  "walk_pp pp as1 = (if as1 = [] then pp else NextOf (last as1))"

text \<open>The size of one block of the pool, and the store after a new block is threaded.\<close>

definition block_size :: nat where
  "block_size = sizeof_ptr + HASH_NODE_ALLOC_NUM * sizeof_hash_node"

definition new_block :: "('k, 'd, 'w) world \<Rightarrow> addr \<Rightarrow> ('k, 'd) hash_node" where
  "new_block w = thread_slots (brk w + sizeof_ptr) 0
       ((nodes w)(brk w := (nodes w (brk w))\<lparr>nextp := hash_mem_list w\<rparr>))"

text \<open>The free list that an allocation leaves behind, given the free list before it.\<close>

definition alloc_rest :: "('k, 'd, 'w) world \<Rightarrow> addr list \<Rightarrow> addr list" where
  "alloc_rest w fs =
     (case fs of
        [] \<Rightarrow> map (elem (brk w + sizeof_ptr)) [1..<HASH_NODE_ALLOC_NUM]
      | f # fs' \<Rightarrow> fs')"

text \<open>
  A chain splits at a key: the nodes whose keys compare less (\<open>below\<close>) and the rest
  (\<open>from_key\<close>); \<open>hit\<close> is the node the walk stops on with \<open>cmpval = 0\<close>, if any.
\<close>

definition lt_key :: "('k, 'd, 'w) hash \<Rightarrow> ('k, 'd, 'w) world \<Rightarrow> 'k option \<Rightarrow> addr \<Rightarrow> bool" where
  "lt_key h w key a \<longleftrightarrow> cmp_f h (hkey (nodes w a)) key < 0"

definition below :: "('k, 'd, 'w) hash \<Rightarrow> ('k, 'd, 'w) world \<Rightarrow> 'k option \<Rightarrow> addr list \<Rightarrow> addr list" where
  "below h w key as = takeWhile (lt_key h w key) as"

definition from_key :: "('k, 'd, 'w) hash \<Rightarrow> ('k, 'd, 'w) world \<Rightarrow> 'k option \<Rightarrow> addr list \<Rightarrow> addr list" where
  "from_key h w key as = dropWhile (lt_key h w key) as"

definition hit :: "('k, 'd, 'w) hash \<Rightarrow> ('k, 'd, 'w) world \<Rightarrow> 'k option \<Rightarrow> addr list \<Rightarrow> addr option" where
  "hit h w key as =
     (case from_key h w key as of
        [] \<Rightarrow> None
      | a # _ \<Rightarrow> if cmp_f h (hkey (nodes w a)) key = 0 then Some a else None)"

text \<open>
  A chain is strictly ascending when the key of every node compares less than the key of
  every node after it; a node is live when neither its key nor its item is \<^verbatim>\<open>NULL\<close>.
\<close>

definition strict_chain :: "('k, 'd, 'w) hash \<Rightarrow> ('k, 'd, 'w) world \<Rightarrow> addr list \<Rightarrow> bool" where
  "strict_chain h w as \<longleftrightarrow>
     sorted_wrt (\<lambda>a b. cmp_f h (hkey (nodes w a)) (hkey (nodes w b)) < 0) as"

definition live :: "('k, 'd, 'w) world \<Rightarrow> addr \<Rightarrow> bool" where
  "live w a \<longleftrightarrow> hkey (nodes w a) \<noteq> None \<and> data (nodes w a) \<noteq> None"

text \<open>The invariant of a table in a world, all parts together.\<close>

definition table_inv ::
  "('k, 'd, 'w) hash \<Rightarrow> ('k, 'd, 'w) world \<Rightarrow> addr list list \<Rightarrow> addr list \<Rightarrow> bool" where
  "table_inv h w ass fs \<longleftrightarrow>
     heap_ok h w ass fs \<and> inv_live w ass \<and> inv_placed h w ass \<and>
     inv_count h ass \<and> inv_nodup h w ass \<and> inv_ascending h w ass"

text \<open>
  The lookup as the specification words it, over the nodes of a chain in chain order:
  a negative comparison of the node's key with the key means keep walking, zero means
  match (return the item), positive means stop.
\<close>

fun spec_find :: "'k hash_cmp_f \<Rightarrow> 'k option \<Rightarrow> ('k, 'd) hash_node list \<Rightarrow> 'd option" where
  "spec_find cmp key [] = None"
| "spec_find cmp key (n # ns) =
     (if cmp (hkey n) key < 0 then spec_find cmp key ns
      else if cmp (hkey n) key = 0 then data n
      else None)"

text \<open>
  The effect of the deletion function on the caller's state when it is called on the
  items \<open>ds\<close> in order (no effect when the table has none).
\<close>

definition del_all :: "('k, 'd, 'w) hash \<Rightarrow> 'd option list \<Rightarrow> 'w \<Rightarrow> 'w" where
  "del_all h ds e = fold (\<lambda>d e. case del_f h of None \<Rightarrow> e | Some f \<Rightarrow> f d e) ds e"

text \<open>What the callbacks see of a node: its item and its key.\<close>

definition payload :: "('k, 'd, 'w) world \<Rightarrow> addr \<Rightarrow> 'd option \<times> 'k option" where
  "payload w a = (data (nodes w a), hkey (nodes w a))"

text \<open>
  One pass of \<^verbatim>\<open>hash_delete_if\<close> over a list of entries, as the specification states it:
  every entry is visited once, in order; the predicate is called on its item, its key and
  \<open>arg\<close>; when the result is greater than zero the deletion function, if any, is called
  on the item. The pass yields the result for each entry and the caller's final state.
\<close>

fun visit ::
  "('k, 'd, 'a, 'w) hash_arg_f \<Rightarrow> 'a \<Rightarrow> ('d, 'w) hash_del_f option \<Rightarrow>
   ('d option \<times> 'k option) list \<Rightarrow> 'w \<Rightarrow> int list \<times> 'w" where
  "visit argf arg delf [] e = ([], e)"
| "visit argf arg delf ((d, k) # xs) e =
     (let (r, e1) = argf d k arg e;
          e2 = (if r > 0 then (case delf of None \<Rightarrow> e1 | Some f \<Rightarrow> f d e1) else e1);
          (rs, e') = visit argf arg delf xs e2
      in (r # rs, e'))"

text \<open>The entries whose result was greater than zero, and the others.\<close>

definition removed :: "addr list \<Rightarrow> int list \<Rightarrow> addr list" where
  "removed as rs = map fst (filter (\<lambda>(a, r). 0 < r) (zip as rs))"

definition kept :: "addr list \<Rightarrow> int list \<Rightarrow> addr list" where
  "kept as rs = map fst (filter (\<lambda>(a, r). \<not> 0 < r) (zip as rs))"

text \<open>
  The node pool alone: the free list holds the nodes \<open>fs\<close>, each once, all inside
  allocated memory.
\<close>

definition pool_ok :: "('k, 'd, 'w) world \<Rightarrow> addr list \<Rightarrow> bool" where
  "pool_ok w fs \<longleftrightarrow>
     chain (nodes w) (hash_free_list w) fs \<and> distinct fs \<and> list_all (\<lambda>a. a < brk w) fs"

text \<open>The conjunction of the three invariants that the data model states.\<close>

definition three_invs :: "('k, 'd, 'w) hash \<Rightarrow> ('k, 'd, 'w) world \<Rightarrow> addr list list \<Rightarrow> bool" where
  "three_invs h w ass \<longleftrightarrow> inv_count h ass \<and> inv_nodup h w ass \<and> inv_ascending h w ass"

section \<open>Example states\<close>

text \<open>A world in which nothing has been allocated yet.\<close>

definition w_empty :: "(nat, nat, unit) world" where
  "w_empty = \<lparr>nodes = \<lambda>a. zero_node, hash_mem_list = None, hash_free_list = None, errno = 0,
        brk = 4096, avail = 100000, ext = ()\<rparr>"

text \<open>
  A table of two buckets over natural-number keys, compared by difference and hashed by
  value, whose deletion function logs the item: bucket 0 holds the keys 2 and 4, bucket
  1 holds the key 3, and one released node is on the free list.
\<close>

definition cmp_nat :: "nat hash_cmp_f" where
  "cmp_nat a b = (case (a, b) of (Some x, Some y) \<Rightarrow> int x - int y | _ \<Rightarrow> 0)"

definition key_nat :: "nat hash_key_f" where
  "key_nat k = (case k of Some x \<Rightarrow> of_nat x | None \<Rightarrow> 0)"

definition del_log :: "(nat, nat list) hash_del_f" where
  "del_log d e = e @ [case d of Some x \<Rightarrow> x | None \<Rightarrow> 0]"

definition h_ex :: "(nat, nat, nat list) hash" where
  "h_ex = \<lparr>count = 3, size_h = 2, table = [Some 100, Some 148],
           cmp_f = cmp_nat, del_f = Some del_log, key_f = key_nat\<rparr>"

definition m_ex :: "addr \<Rightarrow> (nat, nat) hash_node" where
  "m_ex = (\<lambda>a. zero_node)
     (100 := \<lparr>nextp = Some 124, data = Some 20, hkey = Some 2\<rparr>,
      124 := \<lparr>nextp = None, data = Some 40, hkey = Some 4\<rparr>,
      148 := \<lparr>nextp = None, data = Some 30, hkey = Some 3\<rparr>)"

definition w_ex :: "(nat, nat, nat list) world" where
  "w_ex = \<lparr>nodes = m_ex, hash_mem_list = Some 92, hash_free_list = Some 172, errno = 5,
           brk = 1000, avail = 100000, ext = []\<rparr>"

definition ass_ex :: "addr list list" where
  "ass_ex = [[100, 124], [148]]"

definition fs_ex :: "addr list" where
  "fs_ex = [172]"

text \<open>A predicate for \<^verbatim>\<open>hash_delete_if\<close>: keys greater than 2 are to be deleted.\<close>

definition argf_ex :: "(nat, nat, unit, nat list) hash_arg_f" where
  "argf_ex d k arg e = ((case k of Some x \<Rightarrow> if 2 < x then 1 else 0 | None \<Rightarrow> 0), e)"

section \<open>Verification\<close>

subsection \<open>The string hash\<close>

lemma hash_key_string_loop_fold:
  "CHR 0x00 \<notin> set s \<Longrightarrow>
   hash_key_string_loop h s = foldl (\<lambda>hval c. hval * 32 + of_char c) h s"
  by (induction s arbitrary: h) (auto simp: multiplier_def algebra_simps)

text \<open>
  With a factor of \<open>32 = 2\<^sup>5\<close> a byte leaves the 32-bit value after seven more bytes:
  the hash of a key of seven bytes or more depends on its last seven bytes only.
\<close>

lemma fold32_shift:
  "foldl (\<lambda>hval c. hval * 32 + of_char c) h s =
   h * 32 ^ length s + foldl (\<lambda>hval c. hval * 32 + of_char c) (0 :: 32 word) s"
proof (induction s arbitrary: h)
  case Nil
  then show ?case by simp
next
  case (Cons c s)
  have "foldl (\<lambda>hval c. hval * 32 + of_char c) (h * 32 + of_char c) s =
      (h * 32 + of_char c) * 32 ^ length s + foldl (\<lambda>hval c. hval * 32 + of_char c) (0 :: 32 word) s"
    by (rule Cons.IH)
  moreover have "foldl (\<lambda>hval c. hval * 32 + of_char c) (of_char c) s =
      of_char c * 32 ^ length s + foldl (\<lambda>hval c. hval * 32 + of_char c) (0 :: 32 word) s"
    by (rule Cons.IH)
  ultimately show ?case by (simp add: algebra_simps)
qed

lemma pow32_zero: "7 \<le> n \<Longrightarrow> (32 :: 32 word) ^ n = 0"
proof -
  assume "7 \<le> n"
  then obtain m where "n = 7 + m" using le_Suc_ex by blast
  moreover have z: "(32 :: 32 word) ^ 7 = 0" by simp
  ultimately show ?thesis by (simp only: power_add z mult_zero_left)
qed

lemma hash_key_string_suffix:
  assumes "CHR 0x00 \<notin> set p" "CHR 0x00 \<notin> set s" "7 \<le> length s"
  shows "hash_key_string (p @ s) = hash_key_string s"
proof -
  have "hash_key_string (p @ s) =
      foldl (\<lambda>hval c. hval * 32 + of_char c) (foldl (\<lambda>hval c. hval * 32 + of_char c) 0 p) s"
    using assms by (simp add: hash_key_string_def hash_key_string_loop_fold)
  also have "\<dots> = foldl (\<lambda>hval c. hval * 32 + of_char c) 0 s"
    by (subst fold32_shift) (simp add: pow32_zero [OF assms(3)])
  finally show ?thesis using assms by (simp add: hash_key_string_def hash_key_string_loop_fold)
qed

text \<open>
  C1. The claim is that \<^verbatim>\<open>hash_key_string\<close> folds \<open>hval * 31 + byte\<close>, so that
  \<^verbatim>\<open>"ab"\<close> hashes to 3105. The loop body adds \<open>31 * hval + byte\<close> to \<open>hval\<close>, so
  the code multiplies by 32 and not by the constant it names \<open>multiplier\<close>:
  \<^verbatim>\<open>"ab"\<close> hashes to \<open>32 * 97 + 98 = 3202\<close>, and the fold of the specification
  gives another value.
\<close>

theorem hash_key_string_ab:
  "hash_key_string ''ab'' = 3202 \<and> spec_hash_fold ''ab'' = 3105 \<and>
   hash_key_string ''ab'' \<noteq> spec_hash_fold ''ab''"
  by (simp add: hash_key_string_def multiplier_def spec_hash_fold_def)

subsection \<open>Creation\<close>

text \<open>
  C10. A size argument of zero or less, with both mandatory callbacks and enough memory
  for the table object and 1213 bucket pointers, gives a table whose size is exactly
  1213 (and whose bucket array has 1213 entries).
\<close>

theorem hash_create_default_size:
  assumes "sz \<le> 0"
    and "sizeof_hash + 1213 * sizeof_ptr \<le> avail w"
  shows "\<exists>h w'. hash_create sz (Some kf) (Some cf) df w = (Some h, w') \<and>
           size_h h = 1213 \<and> length (table h) = 1213"
  using assms
  by (simp add: hash_create_def HASH_DEF_SIZE_def malloc_def calloc_def Let_def)

theorem hash_create_default_size_witness:
  "\<exists>h w'. hash_create (- 5) (Some key_nat) (Some cmp_nat) None w_empty = (Some h, w') \<and>
     size_h h = 1213 \<and> length (table h) = 1213"
  by (rule hash_create_default_size) (simp_all add: sizeof_hash_def sizeof_ptr_def w_empty_def)

subsection \<open>Comparison, chains and the store\<close>

lemma cmp_ok_refl: "cmp_ok cmp \<Longrightarrow> cmp (Some a) (Some a) = 0"
  unfolding cmp_ok_def by (metis not_less_iff_gr_or_eq)

lemma cmp_ok_sym: "cmp_ok cmp \<Longrightarrow> cmp (Some a) (Some b) = 0 \<Longrightarrow> cmp (Some b) (Some a) = 0"
  unfolding cmp_ok_def by (metis not_less_iff_gr_or_eq)

lemma cmp_ok_swap: "cmp_ok cmp \<Longrightarrow> (cmp (Some a) (Some b) < 0) = (0 < cmp (Some b) (Some a))"
  unfolding cmp_ok_def by blast

lemma cmp_ok_le_trans:
  "cmp_ok cmp \<Longrightarrow> cmp (Some a) (Some b) \<le> 0 \<Longrightarrow> cmp (Some b) (Some c) \<le> 0 \<Longrightarrow> cmp (Some a) (Some c) \<le> 0"
  unfolding cmp_ok_def by blast

lemma cmp_ok_less_le_trans:
  assumes "cmp_ok cmp" "cmp (Some a) (Some b) < 0" "cmp (Some b) (Some c) \<le> 0"
  shows "cmp (Some a) (Some c) < 0"
proof (rule ccontr)
  assume "\<not> cmp (Some a) (Some c) < 0"
  then have "cmp (Some c) (Some a) \<le> 0"
    using cmp_ok_swap [OF assms(1), of a c] by linarith
  with assms(3) have "cmp (Some b) (Some a) \<le> 0"
    using cmp_ok_le_trans [OF assms(1)] by blast
  then show False
    using assms(2) cmp_ok_swap [OF assms(1), of a b] cmp_ok_swap [OF assms(1), of b a] by linarith
qed

lemma cmp_ok_le_less_trans:
  assumes "cmp_ok cmp" "cmp (Some a) (Some b) \<le> 0" "cmp (Some b) (Some c) < 0"
  shows "cmp (Some a) (Some c) < 0"
proof (rule ccontr)
  assume "\<not> cmp (Some a) (Some c) < 0"
  then have "cmp (Some c) (Some a) \<le> 0"
    using cmp_ok_swap [OF assms(1), of a c] by linarith
  with assms(2) have "cmp (Some c) (Some b) \<le> 0"
    using cmp_ok_le_trans [OF assms(1)] by blast
  then show False
    using assms(3) cmp_ok_swap [OF assms(1), of b c] cmp_ok_swap [OF assms(1), of c b] by linarith
qed

lemma chain_cong:
  "(\<And>a. a \<in> set as \<Longrightarrow> nextp (m' a) = nextp (m a)) \<Longrightarrow> chain m' p as = chain m p as"
  by (induction as arbitrary: p) auto

lemma chain_upd:
  "u \<notin> set as \<Longrightarrow> chain (m(u := v)) p as = chain m p as"
  by (rule chain_cong) auto

lemma chain_None [simp]: "chain m None as \<longleftrightarrow> as = []"
  by (cases as) auto

lemma find_loop_chain:
  "chain m p as \<Longrightarrow>
   find_loop m cmp key p =
     Some (case dropWhile (\<lambda>a. cmp (hkey (m a)) key < 0) as of
             [] \<Rightarrow> None
           | a # _ \<Rightarrow> if cmp (hkey (m a)) key = 0 then data (m a) else None)"
proof (induction as arbitrary: p)
  case Nil
  then show ?case by (subst find_loop.simps) simp
next
  case (Cons a as)
  then show ?case by (subst find_loop.simps) (simp add: Let_def)
qed

lemma walk_loop_chain:
  "chain m (deref tbl m pp) as \<Longrightarrow>
   walk_loop tbl m cmp key pp =
     Some (walk_pp pp (takeWhile (\<lambda>a. cmp (hkey (m a)) key < 0) as),
           (case dropWhile (\<lambda>a. cmp (hkey (m a)) key < 0) as of
              [] \<Rightarrow> False
            | a # _ \<Rightarrow> cmp (hkey (m a)) key = 0))"
proof (induction as arbitrary: pp)
  case Nil
  then show ?case by (subst walk_loop.simps) (simp add: walk_pp_def)
next
  case (Cons a as)
  then show ?case by (subst walk_loop.simps) (simp add: Let_def walk_pp_def)
qed

lemma concat_nth_split:
  "i < length ass \<Longrightarrow> concat ass = concat (take i ass) @ ass ! i @ concat (drop (Suc i) ass)"
  by (metis append_Cons append_Nil concat.simps(2) concat_append id_take_nth_drop)

lemma concat_upd_split:
  "i < length ass \<Longrightarrow>
   concat (ass[i := bs]) = concat (take i ass) @ bs @ concat (drop (Suc i) ass)"
  by (simp add: upd_conv_take_nth_drop)

lemma set_nth_subset_concat: "i < length ass \<Longrightarrow> set (ass ! i) \<subseteq> set (concat ass)"
  by (auto dest: nth_mem)

lemma distinct_concat_nth:
  "distinct (concat ass) \<Longrightarrow> i < length ass \<Longrightarrow> distinct (ass ! i)"
  by (metis concat_nth_split distinct_append)

lemma distinct_concat_disjoint:
  assumes "distinct (concat ass)" "i < length ass" "j < length ass" "i \<noteq> j"
  shows "set (ass ! i) \<inter> set (ass ! j) = {}"
proof -
  have aux: "set (ass ! i) \<inter> set (ass ! j) = {}"
    if "i < j" "j < length ass" "distinct (concat ass)" for i j
  proof -
    have "concat ass = concat (take j ass) @ ass ! j @ concat (drop (Suc j) ass)"
      using that by (simp add: concat_nth_split)
    moreover have "set (ass ! i) \<subseteq> set (concat (take j ass))"
      using that set_nth_subset_concat [of i "take j ass"] by simp
    ultimately show ?thesis using that(3) by auto
  qed
  show ?thesis
  proof (cases "i < j")
    case True
    then show ?thesis using aux assms by blast
  next
    case False
    then have "j < i" using assms(4) by simp
    then show ?thesis using aux [of j i] assms by blast
  qed
qed

lemma elem_inj [simp]: "elem fl i = elem fl j \<longleftrightarrow> i = j"
  by (simp add: elem_def sizeof_hash_node_def)

lemma elem_ge: "fl \<le> elem fl i"
  by (simp add: elem_def)

lemma thread_slots_other:
  "(\<And>j. i \<le> j \<Longrightarrow> j < HASH_NODE_ALLOC_NUM \<Longrightarrow> a \<noteq> elem fl j) \<Longrightarrow> i < HASH_NODE_ALLOC_NUM \<Longrightarrow> thread_slots fl i m a = m a"
proof (induction fl i m rule: thread_slots.induct)
  case (1 fl i m)
  show ?case
  proof (cases "i < HASH_NODE_ALLOC_NUM - 1")
    case True
    then have "thread_slots fl i m a = thread_slots fl (i + 1) (m(elem fl i := (m (elem fl i))\<lparr>nextp := Some (elem fl (i + 1))\<rparr>)) a"
      by (subst thread_slots.simps) simp
    also have "\<dots> = (m(elem fl i := (m (elem fl i))\<lparr>nextp := Some (elem fl (i + 1))\<rparr>)) a"
      using True "1.prems" by (intro "1.IH") auto
    also have "\<dots> = m a" using "1.prems"(1) [of i] "1.prems"(2) by simp
    finally show ?thesis .
  next
    case False
    then show ?thesis using "1.prems"(1) [of i] "1.prems"(2) by (subst thread_slots.simps) simp
  qed
qed

lemma thread_slots_payload:
  "hkey (thread_slots fl i m a) = hkey (m a) \<and> data (thread_slots fl i m a) = data (m a)"
proof (induction fl i m rule: thread_slots.induct)
  case (1 fl i m)
  let ?m' = "m(elem fl i := (m (elem fl i))\<lparr>nextp := Some (elem fl (i + 1))\<rparr>)"
  show ?case
  proof (cases "i < HASH_NODE_ALLOC_NUM - 1")
    case True
    have step: "thread_slots fl i m = thread_slots fl (i + 1) ?m'"
      using True by (subst thread_slots.simps) simp
    have "hkey (thread_slots fl (i + 1) ?m' a) = hkey (?m' a)"
      and "data (thread_slots fl (i + 1) ?m' a) = data (?m' a)"
      using "1.IH" [OF True] by blast+
    moreover have "hkey (?m' a) = hkey (m a)" and "data (?m' a) = data (m a)"
      by simp_all
    ultimately show ?thesis unfolding step by simp
  next
    case False
    have step: "thread_slots fl i m = m(elem fl i := (m (elem fl i))\<lparr>nextp := None\<rparr>)"
      using False by (subst thread_slots.simps) simp
    show ?thesis unfolding step by simp
  qed
qed

lemma thread_slots_next:
  "i \<le> j \<Longrightarrow> j < HASH_NODE_ALLOC_NUM \<Longrightarrow>
   nextp (thread_slots fl i m (elem fl j)) =
     (if j < HASH_NODE_ALLOC_NUM - 1 then Some (elem fl (j + 1)) else None)"
proof (induction fl i m rule: thread_slots.induct)
  case (1 fl i m)
  let ?m' = "m(elem fl i := (m (elem fl i))\<lparr>nextp := Some (elem fl (i + 1))\<rparr>)"
  show ?case
  proof (cases "i < HASH_NODE_ALLOC_NUM - 1")
    case True
    have step: "thread_slots fl i m = thread_slots fl (i + 1) ?m'"
      using True by (subst thread_slots.simps) simp
    show ?thesis
    proof (cases "i = j")
      case eq: True
      have "thread_slots fl (i + 1) ?m' (elem fl i) = ?m' (elem fl i)"
        using True by (intro thread_slots_other) auto
      then show ?thesis unfolding step using True eq by simp
    next
      case False
      then have "i + 1 \<le> j" using "1.prems" by simp
      then have "nextp (thread_slots fl (i + 1) ?m' (elem fl j)) =
          (if j < HASH_NODE_ALLOC_NUM - 1 then Some (elem fl (j + 1)) else None)"
        using "1.prems" by (intro "1.IH" [OF True])
      then show ?thesis unfolding step .
    qed
  next
    case False
    then have "i = j" using "1.prems" by simp
    then show ?thesis using False by (subst thread_slots.simps) simp
  qed
qed

lemma chain_thread_slots:
  assumes "\<And>j. j < n \<Longrightarrow> nextp (m (elem fl j)) = (if j < n - 1 then Some (elem fl (j + 1)) else None)"
  shows "i < n \<Longrightarrow> chain m (Some (elem fl i)) (map (elem fl) [i..<n])"
proof (induction "n - i" arbitrary: i)
  case 0
  then show ?case by simp
next
  case (Suc k)
  then have eq: "[i..<n] = i # [Suc i..<n]" by (simp add: upt_conv_Cons)
  show ?case
  proof (cases "Suc i < n")
    case True
    then have "chain m (Some (elem fl (Suc i))) (map (elem fl) [Suc i..<n])"
      using Suc by (intro Suc.hyps) auto
    then show ?thesis using assms [of i] True eq by simp
  next
    case False
    then have "Suc i = n" using Suc.prems by simp
    then show ?thesis using assms [of i] eq by simp
  qed
qed

lemma alloc_num_pos: "0 < HASH_NODE_ALLOC_NUM"
  by (simp add: HASH_NODE_ALLOC_NUM_def)

lemma hash_node_alloc_reuse:
  "hash_free_list w = Some f \<Longrightarrow>
   hash_node_alloc w =
     (Some f, w\<lparr>hash_free_list := nextp (nodes w f), nodes := (nodes w)(f := zero_node)\<rparr>)"
  by (simp add: hash_node_alloc_def)

lemma hash_node_alloc_oom:
  "hash_free_list w = None \<Longrightarrow> \<not> block_size \<le> avail w \<Longrightarrow>
   hash_node_alloc w = (None, w\<lparr>errno := ENOMEM\<rparr>)"
  by (simp add: hash_node_alloc_def malloc_def block_size_def)

lemma hash_node_alloc_block:
  "hash_free_list w = None \<Longrightarrow> block_size \<le> avail w \<Longrightarrow>
   hash_node_alloc w =
     (Some (brk w + sizeof_ptr),
      w\<lparr>brk := brk w + block_size, avail := avail w - block_size,
        hash_mem_list := Some (brk w),
        hash_free_list := nextp (new_block w (brk w + sizeof_ptr)),
        nodes := (new_block w)(brk w + sizeof_ptr := zero_node)\<rparr>)"
  by (simp add: hash_node_alloc_def malloc_def block_size_def new_block_def Let_def)

lemma elem_0 [simp]: "elem fl 0 = fl"
  by (simp add: elem_def)

lemma new_block_old:
  assumes "a < brk w"
  shows "new_block w a = nodes w a"
proof -
  have "a \<noteq> elem (brk w + sizeof_ptr) j" for j
    using elem_ge [of "brk w + sizeof_ptr" j] assms by linarith
  then have "new_block w a = ((nodes w)(brk w := (nodes w (brk w))\<lparr>nextp := hash_mem_list w\<rparr>)) a"
    unfolding new_block_def by (intro thread_slots_other) (simp_all add: alloc_num_pos)
  then show ?thesis using assms by simp
qed

lemma new_block_header: "nextp (new_block w (brk w)) = hash_mem_list w"
proof -
  have "brk w \<noteq> elem (brk w + sizeof_ptr) j" for j
    using elem_ge [of "brk w + sizeof_ptr" j] by (simp add: sizeof_ptr_def)
  then have "new_block w (brk w) = ((nodes w)(brk w := (nodes w (brk w))\<lparr>nextp := hash_mem_list w\<rparr>)) (brk w)"
    unfolding new_block_def by (intro thread_slots_other) (simp_all add: alloc_num_pos)
  then show ?thesis by simp
qed

lemma new_block_next:
  "j < HASH_NODE_ALLOC_NUM \<Longrightarrow>
   nextp (new_block w (elem (brk w + sizeof_ptr) j)) =
     (if j < HASH_NODE_ALLOC_NUM - 1 then Some (elem (brk w + sizeof_ptr) (j + 1)) else None)"
  unfolding new_block_def by (rule thread_slots_next) simp_all

lemma new_block_chain:
  "i < HASH_NODE_ALLOC_NUM \<Longrightarrow>
   chain (new_block w) (Some (elem (brk w + sizeof_ptr) i))
     (map (elem (brk w + sizeof_ptr)) [i..<HASH_NODE_ALLOC_NUM])"
  by (rule chain_thread_slots) (simp_all add: new_block_next)

lemma nth_in_concat: "j < length ass \<Longrightarrow> a \<in> set (ass ! j) \<Longrightarrow> a \<in> set (concat ass)"
  using set_nth_subset_concat [of j ass] by blast

lemma elem_eq_base [simp]: "elem fl j = fl \<longleftrightarrow> j = 0" "fl = elem fl j \<longleftrightarrow> j = 0"
  by (auto simp: elem_def sizeof_hash_node_def)

lemma heap_okD:
  assumes "heap_ok h w ass fs"
  shows "0 < size_h h" "size_h h < 2 ^ 31" "length (table h) = nat (size_h h)"
    "length ass = nat (size_h h)"
    "\<And>j. j < nat (size_h h) \<Longrightarrow> chain (nodes w) (table h ! j) (ass ! j)"
    "chain (nodes w) (hash_free_list w) fs"
    "distinct (concat ass)" "distinct fs" "set (concat ass) \<inter> set fs = {}"
    "\<And>a. a \<in> set (concat ass) \<Longrightarrow> a < brk w"
    "\<And>a. a \<in> set fs \<Longrightarrow> a < brk w"
  using assms unfolding heap_ok_def
  by (auto simp: list_all2_conv_all_nth list_all_iff)

lemma chain_unique: "chain m p as \<Longrightarrow> chain m p bs \<Longrightarrow> as = bs"
proof (induction as arbitrary: p bs)
  case Nil then show ?case by (cases bs) auto
next
  case (Cons a as) then show ?case by (cases bs) auto
qed

lemma heap_ok_unique:
  assumes a: "heap_ok h w ass fs" and b: "heap_ok h w ass' fs'"
  shows "ass' = ass" "fs' = fs"
proof -
  note A = heap_okD [OF a] and B = heap_okD [OF b]
  show "fs' = fs" using B(6) A(6) by (rule chain_unique)
  show "ass' = ass"
  proof (rule nth_equalityI)
    show "length ass' = length ass" using A(4) B(4) by simp
    fix j assume "j < length ass'"
    then have "j < nat (size_h h)" using B(4) by simp
    then show "ass' ! j = ass ! j" using B(5) A(5) chain_unique by blast
  qed
qed

lemma heap_okI:
  assumes "0 < size_h h" "size_h h < 2 ^ 31" "length (table h) = nat (size_h h)"
    "length ass = nat (size_h h)"
    "\<And>j. j < nat (size_h h) \<Longrightarrow> chain (nodes w) (table h ! j) (ass ! j)"
    "chain (nodes w) (hash_free_list w) fs"
    "distinct (concat ass)" "distinct fs" "set (concat ass) \<inter> set fs = {}"
    "\<And>a. a \<in> set (concat ass) \<Longrightarrow> a < brk w"
    "\<And>a. a \<in> set fs \<Longrightarrow> a < brk w"
  shows "heap_ok h w ass fs"
  using assms unfolding heap_ok_def
  by (auto simp: list_all2_conv_all_nth list_all_iff)

lemma slot_of_less:
  assumes "0 < size_h h" "size_h h < 2 ^ 31"
  shows "slot_of h key < nat (size_h h)"
proof -
  let ?s = "word_of_int (size_h h) :: 32 word"
  have s: "unat ?s = nat (size_h h)"
    using assms by (simp add: unat_eq_nat_uint uint_word_of_int take_bit_int_eq_self)
  then have "?s \<noteq> 0" using assms by (metis nat_0_iff not_less unat_0 order_refl)
  then have "key_f h key mod ?s < ?s"
    by (simp add: word_mod_less_divisor word_neq_0_conv)
  then show ?thesis unfolding slot_of_def using s by (simp add: word_less_nat_alt)
qed

lemma alloc_heap_ok:
  assumes ok: "heap_ok h w ass fs" and al: "hash_node_alloc w = (Some p, w1)"
  shows "heap_ok h w1 ass (alloc_rest w fs)"
    and "p \<notin> set (concat ass)" and "p \<notin> set (alloc_rest w fs)" and "p < brk w1"
    and "\<And>a. a \<in> set (concat ass) \<Longrightarrow> nodes w1 a = nodes w a"
    and "nodes w1 p = zero_node" and "ext w1 = ext w" and "errno w1 = errno w"
proof -
  note D = heap_okD [OF ok]
  have "heap_ok h w1 ass (alloc_rest w fs) \<and> p \<notin> set (concat ass) \<and> p \<notin> set (alloc_rest w fs) \<and>
        p < brk w1 \<and> (\<forall>a. a \<in> set (concat ass) \<longrightarrow> nodes w1 a = nodes w a) \<and> nodes w1 p = zero_node \<and>
        ext w1 = ext w \<and> errno w1 = errno w"
  proof (cases fs)
    case (Cons f fs')
    then have fl: "hash_free_list w = Some f" and ch: "chain (nodes w) (nextp (nodes w f)) fs'"
      using D(6) by simp_all
    have p: "p = f" and w1: "w1 = w\<lparr>hash_free_list := nextp (nodes w f), nodes := (nodes w)(f := zero_node)\<rparr>"
      using al unfolding hash_node_alloc_reuse [OF fl] by auto
    have f: "f \<notin> set (concat ass)" "f \<notin> set fs'" "f < brk w"
      using D(8,9,11) Cons by auto
    have rest: "alloc_rest w fs = fs'" by (simp add: alloc_rest_def Cons)
    have "heap_ok h w1 ass fs'"
    proof (rule heap_okI)
      show "chain (nodes w1) (table h ! j) (ass ! j)" if "j < nat (size_h h)" for j
      proof -
        have "f \<notin> set (ass ! j)" using f(1) that D(4) nth_in_concat [of j ass f] by auto
        then show ?thesis using D(5) [OF that] by (simp add: w1 chain_upd)
      qed
      show "chain (nodes w1) (hash_free_list w1) fs'"
        using ch f(2) by (simp add: w1 chain_upd)
    qed (use D Cons in \<open>auto simp: w1\<close>)
    then show ?thesis using f by (auto simp: rest p w1)
  next
    case Nil
    let ?fl = "brk w + sizeof_ptr"
    let ?N = HASH_NODE_ALLOC_NUM
    have fl: "hash_free_list w = None" using D(6) Nil by simp
    have big: "block_size \<le> avail w"
      using al hash_node_alloc_oom [OF fl] by (cases "block_size \<le> avail w") auto
    note eq = hash_node_alloc_block [OF fl big]
    have p: "p = ?fl" using al unfolding eq by auto
    have w1: "w1 = w\<lparr>brk := brk w + block_size, avail := avail w - block_size,
        hash_mem_list := Some (brk w),
        hash_free_list := nextp (new_block w ?fl),
        nodes := (new_block w)(?fl := zero_node)\<rparr>"
      using al unfolding eq by auto
    have rest: "alloc_rest w fs = map (elem ?fl) [1..<?N]" by (simp add: alloc_rest_def Nil)
    have old: "nodes w1 a = nodes w a" if "a < brk w" for a
      using that by (simp add: w1 new_block_old)
    have sub: "a < brk w" if "a \<in> set (ass ! j)" "j < nat (size_h h)" for a j
      using that D(4) D(10) [of a] nth_in_concat [of j ass a] by simp
    have fresh: "brk w \<le> a" if mem: "a \<in> set (map (elem ?fl) [1..<?N])" for a
    proof -
      obtain j where "a = elem ?fl j" using mem by auto
      then show ?thesis using elem_ge [of ?fl j] by simp
    qed
    have bound: "elem ?fl j < brk w + block_size" if "j < ?N" for j
    proof -
      have "j * sizeof_hash_node < ?N * sizeof_hash_node"
        using that by (simp add: sizeof_hash_node_def)
      then show ?thesis by (simp add: elem_def block_size_def)
    qed
    have "heap_ok h w1 ass (map (elem ?fl) [1..<?N])"
    proof (rule heap_okI)
      show "chain (nodes w1) (table h ! j) (ass ! j)" if "j < nat (size_h h)" for j
      proof -
        have "chain (nodes w1) (table h ! j) (ass ! j) = chain (nodes w) (table h ! j) (ass ! j)"
          by (rule chain_cong) (simp add: old sub [OF _ that])
        then show ?thesis using D(5) [OF that] by simp
      qed
      show "chain (nodes w1) (hash_free_list w1) (map (elem ?fl) [1..<?N])"
      proof (cases "1 < ?N")
        case True
        then have "nextp (new_block w ?fl) = Some (elem ?fl 1)"
          using new_block_next [of 0 w] by simp
        moreover have "chain (new_block w) (Some (elem ?fl 1)) (map (elem ?fl) [1..<?N])"
          using True by (rule new_block_chain)
        moreover have "?fl \<notin> set (map (elem ?fl) [1..<?N])"
          by auto
        ultimately show ?thesis by (simp add: w1 chain_upd)
      next
        case False
        then have "nextp (new_block w ?fl) = None"
          using new_block_next [of 0 w] alloc_num_pos by simp
        then show ?thesis using False by (simp add: w1)
      qed
      show "distinct (map (elem ?fl) [1..<?N])"
        by (simp add: distinct_map inj_on_def)
      show "set (concat ass) \<inter> set (map (elem ?fl) [1..<?N]) = {}"
      proof -
        have "a \<notin> set (map (elem ?fl) [1..<?N])" if "a \<in> set (concat ass)" for a
          using D(10) [OF that] fresh [of a] by linarith
        then show ?thesis by blast
      qed
      show "a < brk w1" if "a \<in> set (concat ass)" for a
        using D(10) [OF that] by (simp add: w1)
      show "a < brk w1" if mem: "a \<in> set (map (elem ?fl) [1..<?N])" for a
      proof -
        obtain j where "a = elem ?fl j" "j < ?N" using mem by auto
        then show ?thesis using bound [of j] by (simp add: w1)
      qed
    qed (use D in \<open>auto simp: w1\<close>)
    moreover have "p \<notin> set (concat ass)"
      using D(10) [of p] by (auto simp: p simp del: set_concat)
    moreover have "p \<notin> set (map (elem ?fl) [1..<?N])"
      by (auto simp: p)
    moreover have "p < brk w1"
      using bound [of 0] alloc_num_pos by (simp add: p w1)
    moreover have "\<forall>a. a \<in> set (concat ass) \<longrightarrow> nodes w1 a = nodes w a"
      using old D(10) by blast
    ultimately show ?thesis by (simp add: rest) (simp add: p w1)
  qed
  then show "heap_ok h w1 ass (alloc_rest w fs)"
    and "p \<notin> set (concat ass)" and "p \<notin> set (alloc_rest w fs)" and "p < brk w1"
    and "\<And>a. a \<in> set (concat ass) \<Longrightarrow> nodes w1 a = nodes w a"
    and "nodes w1 p = zero_node" and "ext w1 = ext w" and "errno w1 = errno w"
    by blast+
qed

lemma heap_ok_update:
  assumes ok: "heap_ok h w ass fs"
    and i: "i < nat (size_h h)"
    and sz: "size_h h' = size_h h"
    and len: "length (table h') = length (table h)"
    and tbl: "\<And>j. j < nat (size_h h) \<Longrightarrow> j \<noteq> i \<Longrightarrow> table h' ! j = table h ! j"
    and frame: "\<And>a. a \<in> set (concat ass) \<Longrightarrow> a \<notin> set (ass ! i) \<Longrightarrow>
                  nextp (nodes w' a) = nextp (nodes w a)"
    and bs: "chain (nodes w') (table h' ! i) bs" "distinct bs"
    and fs': "chain (nodes w') (hash_free_list w') fs'" "distinct fs'"
    and disj: "set bs \<inter> set fs' = {}"
    and own: "\<And>a. a \<in> set bs \<union> set fs' \<Longrightarrow> a \<in> set (concat ass) \<Longrightarrow> a \<in> set (ass ! i)"
    and bound: "\<And>a. a \<in> set bs \<union> set fs' \<Longrightarrow> a < brk w'"
    and brk: "brk w \<le> brk w'"
  shows "heap_ok h' w' (ass[i := bs]) fs'"
proof -
  note D = heap_okD [OF ok]
  have il: "i < length ass" using i D(4) by simp
  let ?L = "concat (take i ass)" and ?R = "concat (drop (Suc i) ass)"
  have old: "concat ass = ?L @ ass ! i @ ?R" using il by (rule concat_nth_split)
  have new: "concat (ass[i := bs]) = ?L @ bs @ ?R" using il by (rule concat_upd_split)
  have dold: "distinct (?L @ ass ! i @ ?R)" using D(7) old by simp
  have LR: "a \<in> set (concat ass)" "a \<notin> set (ass ! i)" if "a \<in> set ?L \<union> set ?R" for a
    using that dold old by auto
  have other: "set (ass ! j) \<subseteq> set ?L \<union> set ?R" if "j < length ass" "j \<noteq> i" for j
  proof
    fix a assume a: "a \<in> set (ass ! j)"
    then have "a \<in> set (concat ass)" using that(1) by (rule nth_in_concat [rotated])
    moreover have "a \<notin> set (ass ! i)"
      using distinct_concat_disjoint [OF D(7) that(1) il that(2)] a by blast
    ultimately show "a \<in> set ?L \<union> set ?R" using old by (metis Un_iff set_append)
  qed
  show ?thesis
  proof (rule heap_okI)
    show "0 < size_h h'" "size_h h' < 2 ^ 31" "length (table h') = nat (size_h h')"
      "length (ass[i := bs]) = nat (size_h h')"
      using D sz len by simp_all
    show "chain (nodes w') (table h' ! j) (ass[i := bs] ! j)" if "j < nat (size_h h')" for j
    proof (cases "j = i")
      case True
      then show ?thesis using bs(1) il by simp
    next
      case False
      have j: "j < nat (size_h h)" "j < length ass" using that sz D(4) by simp_all
      have "chain (nodes w') (table h ! j) (ass ! j) = chain (nodes w) (table h ! j) (ass ! j)"
      proof (rule chain_cong)
        fix a assume "a \<in> set (ass ! j)"
        then have "a \<in> set ?L \<union> set ?R" using other [OF j(2) False] by blast
        then show "nextp (nodes w' a) = nextp (nodes w a)" using LR frame by blast
      qed
      then show ?thesis using D(5) [OF j(1)] tbl [OF j(1) False] False by simp
    qed
    show "chain (nodes w') (hash_free_list w') fs'" "distinct fs'" by fact+
    have bsLR: "a \<notin> set ?L \<union> set ?R" if "a \<in> set bs \<union> set fs'" for a
      using own [OF that] LR [of a] by blast
    show "distinct (concat (ass[i := bs]))"
      unfolding new using dold bs(2) bsLR by auto
    show "set (concat (ass[i := bs])) \<inter> set fs' = {}"
      unfolding new using disj bsLR by auto
    show "a < brk w'" if "a \<in> set (concat (ass[i := bs]))" for a
    proof (cases "a \<in> set bs")
      case True
      then show ?thesis using bound by simp
    next
      case False
      then have "a \<in> set ?L \<union> set ?R" using that unfolding new by auto
      then have "a < brk w" using LR(1) D(10) by blast
      then show ?thesis using brk by simp
    qed
    show "a < brk w'" if "a \<in> set fs'" for a using that bound by simp
  qed
qed

lemma below_from_key: "below h w key as @ from_key h w key as = as"
  by (simp add: below_def from_key_def)

lemma find_loop_hit:
  assumes "chain (nodes w) p as"
  shows "find_loop (nodes w) (cmp_f h) key p =
     Some (case hit h w key as of None \<Rightarrow> None | Some a \<Rightarrow> data (nodes w a))"
proof -
  have eq: "dropWhile (\<lambda>a. cmp_f h (hkey (nodes w a)) key < 0) as = from_key h w key as"
    by (simp add: from_key_def lt_key_def [abs_def])
  show ?thesis
    unfolding find_loop_chain [OF assms] eq hit_def
    by (cases "from_key h w key as") simp_all
qed

lemma walk_loop_hit:
  assumes "chain (nodes w) (deref tbl (nodes w) pp) as"
  shows "walk_loop tbl (nodes w) (cmp_f h) key pp =
     Some (walk_pp pp (below h w key as), hit h w key as \<noteq> None)"
proof -
  have eq: "dropWhile (\<lambda>a. cmp_f h (hkey (nodes w a)) key < 0) as = from_key h w key as"
    "takeWhile (\<lambda>a. cmp_f h (hkey (nodes w a)) key < 0) as = below h w key as"
    by (simp_all add: from_key_def below_def lt_key_def [abs_def])
  show ?thesis
    unfolding walk_loop_chain [OF assms] eq hit_def
    by (cases "from_key h w key as") simp_all
qed

lemma chain_after:
  "chain m (deref tbl m pp) (as1 @ as2) \<Longrightarrow> chain m (deref tbl m (walk_pp pp as1)) as2"
proof (induction as1 arbitrary: pp)
  case Nil
  then show ?case by (simp add: walk_pp_def)
next
  case (Cons a as1)
  then have "chain m (deref tbl m (walk_pp (NextOf a) as1)) as2" by simp
  moreover have "walk_pp pp (a # as1) = walk_pp (NextOf a) as1" by (simp add: walk_pp_def)
  ultimately show ?case by simp
qed

lemma chain_splice:
  assumes "chain m p0 (as1 @ as2)" "distinct (as1 @ as2)" "p \<notin> set (as1 @ as2)" "as1 \<noteq> []"
    and "nextp (m p) = nextp (m (last as1))"
  shows "chain (m(last as1 := (m (last as1))\<lparr>nextp := Some p\<rparr>)) p0 (as1 @ p # as2)"
  using assms
proof (induction as1 arbitrary: p0)
  case Nil
  then show ?case by simp
next
  case (Cons a as1)
  show ?case
  proof (cases "as1 = []")
    case True
    then have f: "chain m (nextp (m a)) as2" "a \<notin> set as2" "p \<notin> set as2" "p \<noteq> a" "p0 = Some a"
      "nextp (m p) = nextp (m a)"
      using Cons.prems by auto
    let ?m = "m(a := (m a)\<lparr>nextp := Some p\<rparr>)"
    have "chain ?m (nextp (m a)) as2" using f(1,2) by (simp add: chain_upd)
    moreover have "nextp (?m p) = nextp (m a)" "nextp (?m a) = Some p" using f(4,6) by simp_all
    ultimately have "chain ?m (Some a) (a # p # as2)" by (simp only: chain.simps)
    moreover have "last (a # as1) = a" "(a # as1) @ p # as2 = a # p # as2" using True by simp_all
    ultimately show ?thesis unfolding f(5) by (simp only:)
  next
    case False
    let ?m = "m(last as1 := (m (last as1))\<lparr>nextp := Some p\<rparr>)"
    have "chain ?m (nextp (m a)) (as1 @ p # as2)"
      using False Cons.prems by (intro Cons.IH) auto
    moreover have "a \<noteq> last as1" using Cons.prems(2) False by auto
    then have "nextp (?m a) = nextp (m a)" by simp
    ultimately have "chain ?m (Some a) (a # (as1 @ p # as2))" by (simp only: chain.simps)
    moreover have "last (a # as1) = last as1" "p0 = Some a" using False Cons.prems(1) by simp_all
    ultimately show ?thesis by (simp only: append_Cons)
  qed
qed

lemma chain_unlink:
  assumes "chain m p0 (as1 @ a # as2)" "distinct (as1 @ a # as2)" "as1 \<noteq> []"
  shows "chain (m(last as1 := (m (last as1))\<lparr>nextp := nextp (m a)\<rparr>)) p0 (as1 @ as2)"
  using assms
proof (induction as1 arbitrary: p0)
  case Nil
  then show ?case by simp
next
  case (Cons b as1)
  show ?case
  proof (cases "as1 = []")
    case True
    then have f: "chain m (nextp (m a)) as2" "b \<notin> set as2" "p0 = Some b"
      using Cons.prems by auto
    let ?m = "m(b := (m b)\<lparr>nextp := nextp (m a)\<rparr>)"
    have "chain ?m (nextp (m a)) as2" using f(1,2) by (simp add: chain_upd)
    moreover have "nextp (?m b) = nextp (m a)" by simp
    ultimately have "chain ?m (Some b) (b # as2)" by (simp only: chain.simps)
    moreover have "last (b # as1) = b" "(b # as1) @ as2 = b # as2" using True by simp_all
    ultimately show ?thesis unfolding f(3) by (simp only:)
  next
    case False
    let ?m = "m(last as1 := (m (last as1))\<lparr>nextp := nextp (m a)\<rparr>)"
    have "chain ?m (nextp (m b)) (as1 @ as2)"
      using False Cons.prems by (intro Cons.IH) auto
    moreover have "b \<noteq> last as1" using Cons.prems(2) False by auto
    then have "nextp (?m b) = nextp (m b)" by simp
    ultimately have "chain ?m (Some b) (b # (as1 @ as2))" by (simp only: chain.simps)
    moreover have "last (b # as1) = last as1" "p0 = Some b" using False Cons.prems(1) by simp_all
    ultimately show ?thesis by (simp only: append_Cons)
  qed
qed

subsection \<open>The node pool\<close>

lemma hash_node_alloc_zeroed:
  assumes "hash_node_alloc w = (Some p, w')"
  shows "nodes w' p = zero_node"
proof (cases "hash_free_list w")
  case None
  then have "block_size \<le> avail w"
    using assms hash_node_alloc_oom [OF None] by (cases "block_size \<le> avail w") auto
  then show ?thesis using assms unfolding hash_node_alloc_block [OF None \<open>block_size \<le> avail w\<close>] by auto
next
  case (Some f)
  then show ?thesis using assms unfolding hash_node_alloc_reuse [OF Some] by auto
qed

lemma hash_node_alloc_fails:
  "fst (hash_node_alloc w) = None \<longleftrightarrow> hash_free_list w = None \<and> fst (malloc block_size w) = None"
proof (cases "hash_free_list w")
  case None
  then show ?thesis
    using hash_node_alloc_oom [OF None] hash_node_alloc_block [OF None]
    by (cases "block_size \<le> avail w") (simp_all add: malloc_def)
next
  case (Some f)
  then show ?thesis by (simp add: hash_node_alloc_reuse)
qed

text \<open>
  C9. \<^verbatim>\<open>hash_node_alloc\<close> returns a zeroed node. With an empty free list and a
  successful \<^verbatim>\<open>malloc\<close> of one block (a pointer and \<open>HASH_NODE_ALLOC_NUM\<close> nodes) it
  puts the block at the head of \<open>hash_mem_list\<close>, threads all the slots of the block into
  a list, and returns the first slot, which leaves the other slots as the free list. With
  a free list it takes its head and allocates nothing. It returns \<^verbatim>\<open>NULL\<close> exactly when
  the free list is empty and \<^verbatim>\<open>malloc\<close> fails, with \<open>errno = ENOMEM\<close>.
  \<^verbatim>\<open>hash_node_free\<close> makes the node the head of the free list, in front of the old
  list, so the next allocation returns this node and restores the old head.
\<close>

theorem node_pool:
  fixes w :: "('k, 'd, 'w) world"
  shows
  "(\<forall>p w'. hash_node_alloc w = (Some p, w') \<longrightarrow> nodes w' p = zero_node) \<and>
   (hash_free_list w = None \<and> fst (malloc block_size w) \<noteq> None \<longrightarrow>
      (let b = brk w; fl = b + sizeof_ptr; (p, w') = hash_node_alloc w
       in fst (malloc block_size w) = Some b \<and> p = Some fl \<and>
          hash_mem_list w' = Some b \<and> nextp (nodes w' b) = hash_mem_list w \<and>
          chain (new_block w) (Some fl) (map (elem fl) [0..<HASH_NODE_ALLOC_NUM]) \<and>
          nodes w' = (new_block w)(fl := zero_node) \<and>
          chain (nodes w') (hash_free_list w') (map (elem fl) [1..<HASH_NODE_ALLOC_NUM]) \<and>
          brk w' = b + block_size)) \<and>
   (\<forall>f. hash_free_list w = Some f \<longrightarrow>
      hash_node_alloc w =
        (Some f, w\<lparr>hash_free_list := nextp (nodes w f), nodes := (nodes w)(f := zero_node)\<rparr>)) \<and>
   (fst (hash_node_alloc w) = None \<longleftrightarrow>
      hash_free_list w = None \<and> fst (malloc block_size w) = None) \<and>
   (fst (hash_node_alloc w) = None \<longrightarrow> errno (snd (hash_node_alloc w)) = ENOMEM) \<and>
   (\<forall>node. hash_free_list (hash_node_free node w) = Some node \<and>
      nextp (nodes (hash_node_free node w) node) = hash_free_list w \<and>
      (\<forall>fs. chain (nodes w) (hash_free_list w) fs \<and> node \<notin> set fs \<longrightarrow>
         chain (nodes (hash_node_free node w)) (hash_free_list (hash_node_free node w)) (node # fs)) \<and>
      fst (hash_node_alloc (hash_node_free node w)) = Some node \<and>
      hash_free_list (snd (hash_node_alloc (hash_node_free node w))) = hash_free_list w)"
proof (intro conjI allI impI)
  fix p w' assume "hash_node_alloc w = (Some p, w')"
  then show "nodes w' p = zero_node" by (rule hash_node_alloc_zeroed)
next
  assume a: "hash_free_list w = None \<and> fst (malloc block_size w) \<noteq> None"
  then have fl: "hash_free_list w = None" and big: "block_size \<le> avail w"
    by (auto simp: malloc_def split: if_splits)
  let ?fl = "brk w + sizeof_ptr"
  have c0: "chain (new_block w) (Some ?fl) (map (elem ?fl) [0..<HASH_NODE_ALLOC_NUM])"
    using new_block_chain [of 0 w] alloc_num_pos by simp
  have hd: "nextp (new_block w (brk w)) = hash_mem_list w" by (rule new_block_header)
  have ne: "brk w \<noteq> ?fl" by (simp add: sizeof_ptr_def)
  have c1: "chain ((new_block w)(?fl := zero_node)) (nextp (new_block w ?fl))
      (map (elem ?fl) [1..<HASH_NODE_ALLOC_NUM])"
  proof -
    have "[0..<HASH_NODE_ALLOC_NUM] = 0 # [1..<HASH_NODE_ALLOC_NUM]"
      using alloc_num_pos by (simp add: upt_conv_Cons)
    then have "chain (new_block w) (nextp (new_block w ?fl)) (map (elem ?fl) [1..<HASH_NODE_ALLOC_NUM])"
      using c0 by simp
    moreover have "?fl \<notin> set (map (elem ?fl) [1..<HASH_NODE_ALLOC_NUM])" by auto
    ultimately show ?thesis by (simp add: chain_upd)
  qed
  show "let b = brk w; fl = b + sizeof_ptr; (p, w') = hash_node_alloc w
       in fst (malloc block_size w) = Some b \<and> p = Some fl \<and>
          hash_mem_list w' = Some b \<and> nextp (nodes w' b) = hash_mem_list w \<and>
          chain (new_block w) (Some fl) (map (elem fl) [0..<HASH_NODE_ALLOC_NUM]) \<and>
          nodes w' = (new_block w)(fl := zero_node) \<and>
          chain (nodes w') (hash_free_list w') (map (elem fl) [1..<HASH_NODE_ALLOC_NUM]) \<and>
          brk w' = b + block_size"
    unfolding Let_def hash_node_alloc_block [OF fl big]
    using c0 c1 hd ne big by (simp add: malloc_def)
next
  fix f assume "hash_free_list w = Some f"
  then show "hash_node_alloc w =
        (Some f, w\<lparr>hash_free_list := nextp (nodes w f), nodes := (nodes w)(f := zero_node)\<rparr>)"
    by (rule hash_node_alloc_reuse)
next
  show "fst (hash_node_alloc w) = None \<longleftrightarrow>
      hash_free_list w = None \<and> fst (malloc block_size w) = None"
    by (rule hash_node_alloc_fails)
next
  assume "fst (hash_node_alloc w) = None"
  then have "hash_free_list w = None" "\<not> block_size \<le> avail w"
    unfolding hash_node_alloc_fails by (auto simp: malloc_def split: if_splits)
  then show "errno (snd (hash_node_alloc w)) = ENOMEM"
    by (simp add: hash_node_alloc_oom)
next
  fix node
  show "hash_free_list (hash_node_free node w) = Some node"
    and "nextp (nodes (hash_node_free node w) node) = hash_free_list w"
    by (simp_all add: hash_node_free_def)
  then show "fst (hash_node_alloc (hash_node_free node w)) = Some node"
    and "hash_free_list (snd (hash_node_alloc (hash_node_free node w))) = hash_free_list w"
    by (simp_all add: hash_node_alloc_reuse)
next
  fix node fs assume "chain (nodes w) (hash_free_list w) fs \<and> node \<notin> set fs"
  then show "chain (nodes (hash_node_free node w)) (hash_free_list (hash_node_free node w)) (node # fs)"
    by (simp add: hash_node_free_def chain_upd)
qed

theorem node_pool_witness:
  "fst (hash_node_alloc w_empty) = Some 4104 \<and>
   nodes (snd (hash_node_alloc w_empty)) 4104 = zero_node \<and>
   hash_mem_list (snd (hash_node_alloc w_empty)) = Some 4096 \<and>
   brk (snd (hash_node_alloc w_empty)) = 4096 + 8 + 1024 * 24 \<and>
   fst (hash_node_alloc (hash_node_free 4104 (snd (hash_node_alloc w_empty)))) = Some 4104"
proof -
  have m: "fst (malloc block_size w_empty) \<noteq> None" "hash_free_list w_empty = None"
    by (simp_all add: malloc_def block_size_def w_empty_def sizeof_ptr_def
        sizeof_hash_node_def HASH_NODE_ALLOC_NUM_def)
  show ?thesis
    using node_pool [of w_empty] node_pool [of "snd (hash_node_alloc w_empty)"] m
    by (auto simp: Let_def split_beta w_empty_def block_size_def sizeof_ptr_def
        sizeof_hash_node_def HASH_NODE_ALLOC_NUM_def)
qed

subsection \<open>Sorted chains, lookup, insertion and removal\<close>

lemma live_keyE:
  assumes "\<forall>a\<in>set as. live w a" "a \<in> set as"
  obtains x where "hkey (nodes w a) = Some x"
  using assms by (auto simp: live_def)

lemma sorted_wrt_conj:
  "sorted_wrt (\<lambda>x y. P x y \<and> Q x y) xs \<longleftrightarrow> sorted_wrt P xs \<and> sorted_wrt Q xs"
  by (induction xs) auto

lemma strict_chain_iff:
  assumes "cmp_ok (cmp_f h)" "\<forall>a\<in>set as. live w a"
  shows "strict_chain h w as \<longleftrightarrow>
         sorted_wrt (\<lambda>x y. cmp_f h x y \<noteq> 0 \<and> cmp_f h y x \<noteq> 0) (keys_of w as) \<and>
         sorted_wrt (\<lambda>x y. cmp_f h x y \<le> 0) (keys_of w as)"
proof -
  have eq: "(cmp_f h (hkey (nodes w a)) (hkey (nodes w b)) < 0) =
        ((cmp_f h (hkey (nodes w a)) (hkey (nodes w b)) \<noteq> 0 \<and> cmp_f h (hkey (nodes w b)) (hkey (nodes w a)) \<noteq> 0) \<and>
         cmp_f h (hkey (nodes w a)) (hkey (nodes w b)) \<le> 0)"
    if ab: "a \<in> set as" "b \<in> set as" for a b
  proof -
    obtain x y where "hkey (nodes w a) = Some x" "hkey (nodes w b) = Some y"
      using live_keyE [OF assms(2) ab(1)] live_keyE [OF assms(2) ab(2)] by metis
    then show ?thesis using cmp_ok_swap [OF assms(1), of x y] cmp_ok_swap [OF assms(1), of y x] by auto
  qed
  have "strict_chain h w as \<longleftrightarrow>
      sorted_wrt (\<lambda>a b. (cmp_f h (hkey (nodes w a)) (hkey (nodes w b)) \<noteq> 0 \<and> cmp_f h (hkey (nodes w b)) (hkey (nodes w a)) \<noteq> 0) \<and>
         cmp_f h (hkey (nodes w a)) (hkey (nodes w b)) \<le> 0) as"
    unfolding strict_chain_def
    by (rule iffI; erule sorted_wrt_mono_rel [rotated]; simp add: eq)
  then show ?thesis by (simp add: sorted_wrt_conj keys_of_def sorted_wrt_map)
qed

lemma hit_SomeD:
  assumes "hit h w key as = Some a"
  shows "a \<in> set as" "cmp_f h (hkey (nodes w a)) key = 0"
proof -
  obtain rest where fk: "from_key h w key as = a # rest" and "cmp_f h (hkey (nodes w a)) key = 0"
    using assms by (auto simp: hit_def split: list.splits if_splits)
  then show "cmp_f h (hkey (nodes w a)) key = 0" by simp
  have "a \<in> set (from_key h w key as)" using fk by simp
  then show "a \<in> set as" unfolding from_key_def by (rule set_dropWhileD)
qed

lemma below_lt: "a \<in> set (below h w key as) \<Longrightarrow> cmp_f h (hkey (nodes w a)) key < 0"
  unfolding below_def lt_key_def [abs_def] by (auto dest: set_takeWhileD)

lemma from_key_head: "from_key h w key as = b # rest \<Longrightarrow> \<not> cmp_f h (hkey (nodes w b)) key < 0"
  unfolding from_key_def using hd_dropWhile [of "lt_key h w key" as]
  by (auto simp: lt_key_def)

lemma strict_chain_append:
  "strict_chain h w (xs @ ys) \<longleftrightarrow>
     strict_chain h w xs \<and> strict_chain h w ys \<and>
     (\<forall>a\<in>set xs. \<forall>b\<in>set ys. cmp_f h (hkey (nodes w a)) (hkey (nodes w b)) < 0)"
  by (simp add: strict_chain_def sorted_wrt_append)

lemma strict_chain_Cons:
  "strict_chain h w (a # ys) \<longleftrightarrow>
     strict_chain h w ys \<and> (\<forall>b\<in>set ys. cmp_f h (hkey (nodes w a)) (hkey (nodes w b)) < 0)"
  by (auto simp add: strict_chain_def)

lemma from_key_ge:
  assumes cmp: "cmp_ok (cmp_f h)" and lv: "\<forall>a\<in>set as. live w a" and st: "strict_chain h w as"
    and c: "c \<in> set (from_key h w (Some k) as)"
  shows "0 \<le> cmp_f h (hkey (nodes w c)) (Some k)"
proof (cases "from_key h w (Some k) as")
  case Nil
  then show ?thesis using c by simp
next
  case (Cons b rest)
  have b: "0 \<le> cmp_f h (hkey (nodes w b)) (Some k)" using from_key_head [OF Cons] by simp
  show ?thesis
  proof (cases "c = b")
    case True
    then show ?thesis using b by simp
  next
    case False
    then have crest: "c \<in> set rest" using c Cons by simp
    have "strict_chain h w (below h w (Some k) as @ b # rest)"
      using st below_from_key [of h w "Some k" as] Cons by simp
    then have bc: "cmp_f h (hkey (nodes w b)) (hkey (nodes w c)) < 0"
      using crest by (simp add: strict_chain_append strict_chain_Cons)
    have "b \<in> set as" "c \<in> set as"
      using below_from_key [of h w "Some k" as] Cons crest by (metis Un_iff list.set_intros set_append)+
    then obtain x y where xy: "hkey (nodes w b) = Some x" "hkey (nodes w c) = Some y"
      using live_keyE [OF lv, of b] live_keyE [OF lv, of c] by metis
    show ?thesis
    proof (rule ccontr)
      assume "\<not> 0 \<le> cmp_f h (hkey (nodes w c)) (Some k)"
      then have "cmp_f h (Some y) (Some k) < 0" using xy by simp
      moreover have "cmp_f h (Some x) (Some y) \<le> 0" using bc xy by simp
      ultimately have "cmp_f h (Some x) (Some k) < 0" using cmp_ok_le_less_trans [OF cmp] by blast
      then show False using b xy by simp
    qed
  qed
qed

lemma hit_SomeI:
  assumes cmp: "cmp_ok (cmp_f h)" and lv: "\<forall>a\<in>set as. live w a" and st: "strict_chain h w as"
    and a: "a \<in> set as" and eq: "cmp_f h (hkey (nodes w a)) (Some k) = 0"
  shows "hit h w (Some k) as = Some a"
proof -
  have "a \<notin> set (below h w (Some k) as)" using below_lt [of a h w "Some k" as] eq by auto
  then have afk: "a \<in> set (from_key h w (Some k) as)"
    using a below_from_key [of h w "Some k" as] by (metis Un_iff set_append)
  then obtain b rest where fk: "from_key h w (Some k) as = b # rest"
    by (cases "from_key h w (Some k) as") auto
  have "a = b"
  proof (rule ccontr)
    assume "a \<noteq> b"
    then have arest: "a \<in> set rest" using afk fk by simp
    have "strict_chain h w (below h w (Some k) as @ b # rest)"
      using st below_from_key [of h w "Some k" as] fk by simp
    then have ba: "cmp_f h (hkey (nodes w b)) (hkey (nodes w a)) < 0"
      using arest by (simp add: strict_chain_append strict_chain_Cons)
    have "b \<in> set as" using below_from_key [of h w "Some k" as] fk by (metis Un_iff list.set_intros(1) set_append)
    then obtain x y where xy: "hkey (nodes w b) = Some x" "hkey (nodes w a) = Some y"
      using a live_keyE [OF lv, of b] live_keyE [OF lv, of a] by metis
    have "cmp_f h (Some x) (Some k) < 0"
      using cmp_ok_less_le_trans [OF cmp, of x y k] ba eq xy by simp
    then show False using from_key_head [OF fk] xy by simp
  qed
  then show ?thesis using fk eq by (simp add: hit_def)
qed

lemma hit_None_iff:
  assumes cmp: "cmp_ok (cmp_f h)" and lv: "\<forall>a\<in>set as. live w a" and st: "strict_chain h w as"
  shows "hit h w (Some k) as = None \<longleftrightarrow> (\<forall>a\<in>set as. cmp_f h (hkey (nodes w a)) (Some k) \<noteq> 0)"
  using hit_SomeI [OF assms] hit_SomeD [of h w "Some k" as]
  by (metis option.exhaust option.distinct(1))

lemma inv_live_iff: "inv_live w ass \<longleftrightarrow> (\<forall>a\<in>set (concat ass). live w a)"
  by (simp add: inv_live_def live_def list_all_iff)

lemma inv_placed_iff:
  "inv_placed h w ass \<longleftrightarrow>
     (\<forall>i<length ass. \<forall>a\<in>set (ass ! i). slot_of h (hkey (nodes w a)) = i)"
proof
  assume p: "inv_placed h w ass"
  show "\<forall>i<length ass. \<forall>a\<in>set (ass ! i). slot_of h (hkey (nodes w a)) = i"
  proof (intro allI impI ballI)
    fix i a assume i: "i < length ass" and a: "a \<in> set (ass ! i)"
    have "(i, ass ! i) \<in> set (enumerate 0 ass)" using i by (simp add: in_set_enumerate_eq)
    then show "slot_of h (hkey (nodes w a)) = i"
      using p a unfolding inv_placed_def list_all_iff by fastforce
  qed
next
  assume "\<forall>i<length ass. \<forall>a\<in>set (ass ! i). slot_of h (hkey (nodes w a)) = i"
  then show "inv_placed h w ass"
    unfolding inv_placed_def list_all_iff by (auto simp: in_set_enumerate_eq)
qed

lemma inv_sorted_iff:
  assumes "cmp_ok (cmp_f h)" "inv_live w ass"
  shows "inv_nodup h w ass \<and> inv_ascending h w ass \<longleftrightarrow> (\<forall>i<length ass. strict_chain h w (ass ! i))"
proof -
  have lv: "\<forall>a\<in>set (ass ! i). live w a" if "i < length ass" for i
    using assms(2) that nth_in_concat [of i ass] unfolding inv_live_iff by blast
  show ?thesis
    unfolding inv_nodup_def inv_ascending_def list_all_iff all_set_conv_all_nth
    using strict_chain_iff [OF assms(1) lv] by blast
qed

lemma table_invD:
  assumes "table_inv h w ass fs"
  shows "heap_ok h w ass fs" "inv_live w ass" "inv_placed h w ass" "inv_count h ass"
    "inv_nodup h w ass" "inv_ascending h w ass"
  using assms by (simp_all add: table_inv_def)

lemma table_inv_pin:
  assumes "table_inv h w ass' fs'" and "heap_ok h w ass fs"
  shows "ass' = ass \<and> fs' = fs"
  using heap_ok_unique [OF assms(2) table_invD(1) [OF assms(1)]] by simp

lemma table_inv_chain:
  assumes inv: "table_inv h w ass fs" and cmp: "cmp_ok (cmp_f h)" and i: "i < nat (size_h h)"
  shows "chain (nodes w) (table h ! i) (ass ! i)" "strict_chain h w (ass ! i)"
    "\<forall>a\<in>set (ass ! i). live w a" "i < length ass"
proof -
  note T = table_invD [OF inv]
  note D = heap_okD [OF T(1)]
  show il: "i < length ass" using i D(4) by simp
  show "chain (nodes w) (table h ! i) (ass ! i)" using D(5) [OF i] .
  show "strict_chain h w (ass ! i)"
    using inv_sorted_iff [OF cmp T(2)] T(5,6) il by blast
  show "\<forall>a\<in>set (ass ! i). live w a"
    using T(2) il nth_in_concat [of i ass] unfolding inv_live_iff by blast
qed

lemma slot_of_mod:
  assumes "0 < size_h h" "size_h h < 2 ^ 31"
  shows "slot_of h key = unat (key_f h key) mod nat (size_h h)"
proof -
  have "unat (word_of_int (size_h h) :: 32 word) = nat (size_h h)"
    using assms by (simp add: unat_eq_nat_uint uint_word_of_int take_bit_int_eq_self)
  then show ?thesis by (simp add: slot_of_def unat_mod)
qed

lemma spec_find_hit:
  "spec_find (cmp_f h) key (map (nodes w) as) =
     (case hit h w key as of None \<Rightarrow> None | Some a \<Rightarrow> data (nodes w a))"
  by (induction as) (simp_all add: hit_def from_key_def lt_key_def)

lemma hit_errno [simp]: "hit h (w\<lparr>errno := e\<rparr>) key as = hit h w key as"
  by (simp add: hit_def from_key_def lt_key_def [abs_def] cong: list.case_cong)

lemma below_errno [simp]: "below h (w\<lparr>errno := e\<rparr>) key as = below h w key as"
  by (simp add: below_def lt_key_def [abs_def])

lemma hash_find_hit:
  assumes inv: "table_inv h w ass fs" and cmp: "cmp_ok (cmp_f h)"
  shows "hash_find (Some h) (Some k) w =
     Some (case hit h w (Some k) (ass ! slot_of h (Some k)) of
             None \<Rightarrow> None | Some a \<Rightarrow> data (nodes w a), w\<lparr>errno := 0\<rparr>)"
proof -
  note D = heap_okD [OF table_invD(1) [OF inv]]
  let ?i = "slot_of h (Some k)"
  have i: "?i < nat (size_h h)" using D(1,2) by (rule slot_of_less)
  have "chain (nodes (w\<lparr>errno := 0\<rparr>)) (table h ! ?i) (ass ! ?i)"
    using table_inv_chain(1) [OF inv cmp i] by simp
  from find_loop_hit [OF this, of h "Some k"] show ?thesis
    by (simp add: hash_find_def Let_def cong: option.case_cong)
qed

lemma equal_key_slot:
  assumes inv: "table_inv h w ass fs" and cmp: "cmp_ok (cmp_f h)" and key: "key_ok h"
    and a: "a \<in> set (concat ass)" and eq: "cmp_f h (hkey (nodes w a)) (Some k) = 0"
  shows "a \<in> set (ass ! slot_of h (Some k))"
proof -
  note T = table_invD [OF inv]
  obtain as where "as \<in> set ass" "a \<in> set as" using a by auto
  then obtain j where j: "j < length ass" "a \<in> set (ass ! j)"
    by (metis in_set_conv_nth)
  obtain x where x: "hkey (nodes w a) = Some x"
    using T(2) a unfolding inv_live_iff live_def by auto
  have "slot_of h (hkey (nodes w a)) = j" using T(3) j unfolding inv_placed_iff by blast
  then have "slot_of h (Some x) = j" using x by simp
  moreover have "key_f h (Some x) = key_f h (Some k)"
    using key eq x unfolding key_ok_def by auto
  ultimately show ?thesis using j(2) by (simp add: slot_of_def)
qed

lemma hash_insert_exists:
  assumes inv: "table_inv h w ass fs" and cmp: "cmp_ok (cmp_f h)"
    and hit: "hit h w (Some k) (ass ! slot_of h (Some k)) = Some a"
  shows "hash_insert (Some h) (Some k) (Some d) w = Some (None, Some h, w\<lparr>errno := EEXIST\<rparr>)"
proof -
  note D = heap_okD [OF table_invD(1) [OF inv]]
  let ?i = "slot_of h (Some k)"
  have i: "?i < nat (size_h h)" using D(1,2) by (rule slot_of_less)
  have "chain (nodes w) (deref (table h) (nodes w) (Bucket ?i)) (ass ! ?i)"
    using table_inv_chain(1) [OF inv cmp i] by simp
  from walk_loop_hit [OF this, of h "Some k"] show ?thesis
    using hit by (simp add: hash_insert_def)
qed

lemma hash_insert_oom:
  assumes inv: "table_inv h w ass fs" and cmp: "cmp_ok (cmp_f h)"
    and hit: "hit h w (Some k) (ass ! slot_of h (Some k)) = None"
    and al: "fst (hash_node_alloc w) = None"
  shows "hash_insert (Some h) (Some k) (Some d) w = Some (None, Some h, w\<lparr>errno := ENOMEM\<rparr>)"
proof -
  note D = heap_okD [OF table_invD(1) [OF inv]]
  let ?i = "slot_of h (Some k)"
  have i: "?i < nat (size_h h)" using D(1,2) by (rule slot_of_less)
  have "chain (nodes w) (deref (table h) (nodes w) (Bucket ?i)) (ass ! ?i)"
    using table_inv_chain(1) [OF inv cmp i] by simp
  note wl = walk_loop_hit [OF this, of h "Some k"]
  have "hash_free_list w = None" "\<not> block_size \<le> avail w"
    using al unfolding hash_node_alloc_fails by (auto simp: malloc_def split: if_splits)
  then have "hash_node_alloc w = (None, w\<lparr>errno := ENOMEM\<rparr>)" by (rule hash_node_alloc_oom)
  then show ?thesis using wl hit by (simp add: hash_insert_def)
qed

lemma hash_insert_new:
  assumes inv: "table_inv h w ass fs" and cmp: "cmp_ok (cmp_f h)"
    and hit: "hit h w (Some k) (ass ! slot_of h (Some k)) = None"
    and al: "hash_node_alloc w = (Some p, w1)"
  shows "\<exists>h' w'. hash_insert (Some h) (Some k) (Some d) w = Some (Some d, Some h', w') \<and>
     heap_ok h' w' (ass[slot_of h (Some k) :=
        below h w (Some k) (ass ! slot_of h (Some k)) @ p # from_key h w (Some k) (ass ! slot_of h (Some k))])
       (alloc_rest w fs) \<and>
     hkey (nodes w' p) = Some k \<and> data (nodes w' p) = Some d \<and> p \<notin> set (concat ass) \<and>
     (\<forall>a\<in>set (concat ass). hkey (nodes w' a) = hkey (nodes w a) \<and> data (nodes w' a) = data (nodes w a)) \<and>
     count h' = count h + 1 \<and> size_h h' = size_h h \<and> cmp_f h' = cmp_f h \<and> del_f h' = del_f h \<and>
     key_f h' = key_f h \<and> ext w' = ext w \<and> errno w' = errno w"
proof -
  note D = heap_okD [OF table_invD(1) [OF inv]]
  define i where "i = slot_of h (Some k)"
  define as1 where "as1 = below h w (Some k) (ass ! i)"
  define as2 where "as2 = from_key h w (Some k) (ass ! i)"
  define pp where "pp = walk_pp (Bucket i) as1"
  define fs1 where "fs1 = alloc_rest w fs"
  have i: "i < nat (size_h h)" unfolding i_def using D(1,2) by (rule slot_of_less)
  note C = table_inv_chain [OF inv cmp i]
  have split: "as1 @ as2 = ass ! i" unfolding as1_def as2_def by (rule below_from_key)
  have sets: "set (ass ! i) = set as1 \<union> set as2" using arg_cong [OF split, of set] by simp
  have ch0: "chain (nodes w) (deref (table h) (nodes w) (Bucket i)) (ass ! i)" using C(1) by simp
  have wl: "walk_loop (table h) (nodes w) (cmp_f h) (Some k) (Bucket i) = Some (pp, False)"
    using walk_loop_hit [OF ch0, of h "Some k"] hit by (simp add: pp_def as1_def i_def)
  note A = alloc_heap_ok [OF table_invD(1) [OF inv] al, folded fs1_def]
  note D1 = heap_okD [OF A(1)]
  have sub: "set (ass ! i) \<subseteq> set (concat ass)" using C(4) by (rule set_nth_subset_concat)
  have pas: "p \<notin> set as1" "p \<notin> set as2" using A(2) sub sets by blast+
  have das: "distinct (as1 @ as2)" unfolding split using D(7) C(4) by (rule distinct_concat_nth)
  have ch1: "chain (nodes w1) (table h ! i) (as1 @ as2)"
    unfolding split using D1(5) [OF i] .
  have pp_ne: "pp \<noteq> NextOf p"
  proof
    assume "pp = NextOf p"
    then have "as1 \<noteq> []" "last as1 = p" by (auto simp: walk_pp_def pp_def split: if_splits)
    then have "p \<in> set as1" using last_in_set by metis
    then show False using pas by simp
  qed
  define n :: "('a, 'b) hash_node"
    where "n = \<lparr>nextp = deref (table h) (nodes w1) pp, data = Some d, hkey = Some k\<rparr>"
  define w4 where "w4 = w1\<lparr>nodes := (nodes w1)(p := n)\<rparr>"
  have dr: "deref (table h) (m(p := v)) pp = deref (table h) m pp" for m :: "addr \<Rightarrow> ('a, 'b) hash_node" and v
    using pp_ne by (cases pp) auto
  have "hash_insert (Some h) (Some k) (Some d) w =
      (case assign pp (Some p) h
         (w1\<lparr>nodes := (nodes w1)(p := \<lparr>nextp = deref (table h) (nodes w1) pp, data = Some d, hkey = Some k\<rparr>)\<rparr>)
       of (t, w') \<Rightarrow> Some (Some d, Some (t\<lparr>count := count t + 1\<rparr>), w'))"
    using wl [unfolded i_def] al A(6) by (simp add: hash_insert_def Let_def dr zero_node_def)
  then have ins: "hash_insert (Some h) (Some k) (Some d) w =
      (case assign pp (Some p) h w4 of (t, w') \<Rightarrow> Some (Some d, Some (t\<lparr>count := count t + 1\<rparr>), w'))"
    unfolding w4_def n_def .
  have m4: "nodes w4 = (nodes w1)(p := n)" "hash_free_list w4 = hash_free_list w1" "brk w4 = brk w1"
    "ext w4 = ext w1" "errno w4 = errno w1"
    by (simp_all add: w4_def)
  have n: "nextp n = deref (table h) (nodes w1) pp" "data n = Some d" "hkey n = Some k"
    by (simp_all add: n_def)
  have tail: "chain (nodes w1) (deref (table h) (nodes w1) pp) as2"
    unfolding pp_def using chain_after [of "nodes w1" "table h" "Bucket i" as1 as2] ch1 by simp
  have tail4: "chain (nodes w4) (nextp (nodes w4 p)) as2"
    using tail pas(2) by (simp add: m4 n chain_upd)
  have ch4: "chain (nodes w4) (table h ! i) (as1 @ as2)"
    using ch1 pas by (simp add: m4 chain_upd)
  have fs4: "chain (nodes w4) (hash_free_list w4) fs1"
    using D1(6) A(3) by (simp add: m4 chain_upd)
  have pay4: "hkey (nodes w4 a) = hkey (nodes w a) \<and> data (nodes w4 a) = data (nodes w a)"
    if "a \<in> set (concat ass)" for a
    using that A(2) A(5) [OF that] by (auto simp: m4)
  then have pay: "\<forall>a\<in>set (concat ass). hkey (nodes w4 a) = hkey (nodes w a) \<and> data (nodes w4 a) = data (nodes w a)"
    by blast
  have dnew: "distinct (as1 @ p # as2)" using das pas by auto
  have disj: "set (as1 @ p # as2) \<inter> set fs1 = {}"
    using D1(9) A(3) sub sets by (auto simp del: set_concat)
  have own: "a \<in> set (ass ! i)" if "a \<in> set (as1 @ p # as2) \<union> set fs1" "a \<in> set (concat ass)" for a
    using that A(2) D1(9) sets by (auto simp del: set_concat)
  have bnd: "a < brk w1" if mem: "a \<in> set (as1 @ p # as2) \<union> set fs1" for a
  proof -
    consider "a \<in> set (ass ! i)" | "a = p" | "a \<in> set fs1" using mem sets by auto
    then show ?thesis
    proof cases
      case 1
      then have "a \<in> set (concat ass)" using sub by blast
      then show ?thesis by (rule D1(10))
    qed (use A(4) D1(11) in blast)+
  qed
  show ?thesis
  proof (cases "as1 = []")
    case True
    define h' where "h' = h\<lparr>table := (table h)[i := Some p], count := count h + 1\<rparr>"
    have pp: "pp = Bucket i" using True by (simp add: walk_pp_def pp_def)
    have res: "hash_insert (Some h) (Some k) (Some d) w = Some (Some d, Some h', w4)"
      unfolding ins pp h'_def by simp
    have h': "size_h h' = size_h h" "length (table h') = length (table h)"
      "table h' ! i = Some p" "\<And>j. j \<noteq> i \<Longrightarrow> table h' ! j = table h ! j"
      "count h' = count h + 1" "cmp_f h' = cmp_f h" "del_f h' = del_f h" "key_f h' = key_f h"
      using i D(3) by (simp_all add: h'_def)
    have "heap_ok h' w4 (ass[i := as1 @ p # as2]) fs1"
    proof (rule heap_ok_update [OF A(1) i])
      show "chain (nodes w4) (table h' ! i) (as1 @ p # as2)"
        using tail4 True by (simp add: h')
      show "nextp (nodes w4 a) = nextp (nodes w1 a)" if "a \<in> set (concat ass)" for a
        using that A(2) by (auto simp: m4)
      show "a < brk w4" if "a \<in> set (as1 @ p # as2) \<union> set fs1" for a
        using bnd [OF that] by (simp add: m4)
    qed (use h' dnew disj own fs4 D1(8) in \<open>simp_all add: m4\<close>)
    moreover have "hkey (nodes w4 p) = Some k \<and> data (nodes w4 p) = Some d"
      by (simp add: m4 n)
    moreover have "ext w4 = ext w" "errno w4 = errno w" using A(7,8) by (simp_all add: m4)
    ultimately show ?thesis
      unfolding res i_def [symmetric] as1_def [symmetric] as2_def [symmetric] fs1_def [symmetric]
      using pay A(2) h'(1,5-8) by simp
  next
    case False
    define l where "l = last as1"
    define w5 where "w5 = w4\<lparr>nodes := (nodes w4)(l := (nodes w4 l)\<lparr>nextp := Some p\<rparr>)\<rparr>"
    define h' where "h' = h\<lparr>count := count h + 1\<rparr>"
    have pp: "pp = NextOf l" using False by (simp add: walk_pp_def pp_def l_def)
    have l: "l \<in> set as1" using False by (simp add: l_def)
    then have las: "l \<in> set (ass ! i)" using sets by simp
    have lp: "l \<noteq> p" using l pas by auto
    have res: "hash_insert (Some h) (Some k) (Some d) w = Some (Some d, Some h', w5)"
      unfolding ins pp h'_def w5_def by simp
    have m5: "nodes w5 = (nodes w4)(l := (nodes w4 l)\<lparr>nextp := Some p\<rparr>)"
      "hash_free_list w5 = hash_free_list w1" "brk w5 = brk w1" "ext w5 = ext w1" "errno w5 = errno w1"
      by (simp_all add: w5_def m4)
    have nx: "nextp (nodes w4 p) = nextp (nodes w4 l)" using lp pp by (simp add: m4 n)
    have sp: "chain (nodes w5) (table h ! i) (as1 @ p # as2)"
      unfolding m5 l_def using ch4 das _ False nx [unfolded l_def]
      by (rule chain_splice) (use pas in simp)
    have "heap_ok h' w5 (ass[i := as1 @ p # as2]) fs1"
    proof (rule heap_ok_update [OF A(1) i])
      show "chain (nodes w5) (table h' ! i) (as1 @ p # as2)"
        using sp by (simp add: h'_def)
      have "l \<notin> set fs1" using las sub D1(9) by blast
      then show "chain (nodes w5) (hash_free_list w5) fs1"
        using fs4 by (simp add: m5 m4 chain_upd)
      show "nextp (nodes w5 a) = nextp (nodes w1 a)" if "a \<in> set (concat ass)" "a \<notin> set (ass ! i)" for a
        using that A(2) las by (auto simp: m5 m4)
      show "a < brk w5" if "a \<in> set (as1 @ p # as2) \<union> set fs1" for a
        using bnd [OF that] by (simp add: m5)
    qed (use dnew disj own D1(8) in \<open>simp_all add: h'_def m5\<close>)
    moreover have "\<forall>a\<in>set (concat ass). hkey (nodes w5 a) = hkey (nodes w a) \<and> data (nodes w5 a) = data (nodes w a)"
      using pay by (simp add: m5)
    moreover have "hkey (nodes w5 p) = Some k \<and> data (nodes w5 p) = Some d"
      using lp by (simp add: m5 m4 n)
    moreover have "ext w5 = ext w" "errno w5 = errno w" using A(7,8) by (simp_all add: m5)
    ultimately show ?thesis
      unfolding res i_def [symmetric] as1_def [symmetric] as2_def [symmetric] fs1_def [symmetric]
      using A(2) by (simp add: h'_def)
  qed
qed

lemma hash_remove_missing:
  assumes inv: "table_inv h w ass fs" and cmp: "cmp_ok (cmp_f h)"
    and hit: "hit h w (Some k) (ass ! slot_of h (Some k)) = None"
  shows "hash_remove (Some h) (Some k) w = Some (None, Some h, w\<lparr>errno := 0\<rparr>)"
proof -
  note D = heap_okD [OF table_invD(1) [OF inv]]
  let ?i = "slot_of h (Some k)"
  have i: "?i < nat (size_h h)" using D(1,2) by (rule slot_of_less)
  have "chain (nodes (w\<lparr>errno := 0\<rparr>)) (deref (table h) (nodes (w\<lparr>errno := 0\<rparr>)) (Bucket ?i)) (ass ! ?i)"
    using table_inv_chain(1) [OF inv cmp i] by simp
  from walk_loop_hit [OF this, of h "Some k"] show ?thesis
    using hit by (simp add: hash_remove_def Let_def)
qed

lemma hash_remove_found:
  assumes inv: "table_inv h w ass fs" and cmp: "cmp_ok (cmp_f h)"
    and hit: "hit h w (Some k) (ass ! slot_of h (Some k)) = Some a"
  shows "\<exists>h' w'. hash_remove (Some h) (Some k) w = Some (data (nodes w a), Some h', w') \<and>
     heap_ok h' w' (ass[slot_of h (Some k) :=
        below h w (Some k) (ass ! slot_of h (Some k)) @ tl (from_key h w (Some k) (ass ! slot_of h (Some k)))])
       (a # fs) \<and>
     from_key h w (Some k) (ass ! slot_of h (Some k)) =
       a # tl (from_key h w (Some k) (ass ! slot_of h (Some k))) \<and>
     (\<forall>b. hkey (nodes w' b) = hkey (nodes w b) \<and> data (nodes w' b) = data (nodes w b)) \<and>
     count h' = count h - 1 \<and> size_h h' = size_h h \<and> cmp_f h' = cmp_f h \<and> del_f h' = del_f h \<and>
     key_f h' = key_f h \<and> ext w' = ext w \<and> errno w' = 0 \<and>
     hash_mem_list w' = hash_mem_list w \<and> brk w' = brk w \<and> avail w' = avail w"
proof -
  note D = heap_okD [OF table_invD(1) [OF inv]]
  define i where "i = slot_of h (Some k)"
  define as1 where "as1 = below h w (Some k) (ass ! i)"
  define as2 where "as2 = tl (from_key h w (Some k) (ass ! i))"
  define pp where "pp = walk_pp (Bucket i) as1"
  define w0 where "w0 = w\<lparr>errno := 0\<rparr>"
  have m0: "nodes w0 = nodes w" "hash_free_list w0 = hash_free_list w" "brk w0 = brk w"
    "ext w0 = ext w" "errno w0 = 0" "hash_mem_list w0 = hash_mem_list w" "avail w0 = avail w"
    by (simp_all add: w0_def)
  have ok0: "heap_ok h w0 ass fs"
    using table_invD(1) [OF inv] by (simp add: heap_ok_def w0_def)
  have i: "i < nat (size_h h)" unfolding i_def using D(1,2) by (rule slot_of_less)
  note C = table_inv_chain [OF inv cmp i]
  have fk: "from_key h w (Some k) (ass ! i) = a # as2"
    using hit unfolding i_def [symmetric] as2_def
    by (cases "from_key h w (Some k) (ass ! i)") (auto simp: hit_def split: if_splits)
  have fk': "from_key h w (Some k) (ass ! slot_of h (Some k)) =
       a # tl (from_key h w (Some k) (ass ! slot_of h (Some k)))"
    using fk unfolding as2_def i_def .
  have split: "as1 @ a # as2 = ass ! i"
    unfolding as1_def fk [symmetric] by (rule below_from_key)
  have sets: "set (ass ! i) = set as1 \<union> insert a (set as2)" using arg_cong [OF split, of set] by simp
  have ch: "chain (nodes w) (table h ! i) (as1 @ a # as2)" unfolding split by (rule C(1))
  have ch0: "chain (nodes w0) (deref (table h) (nodes w0) (Bucket i)) (ass ! i)"
    using C(1) by (simp add: m0)
  have wl: "walk_loop (table h) (nodes w0) (cmp_f h) (Some k) (Bucket i) = Some (pp, True)"
    using walk_loop_hit [OF ch0, of h "Some k"] hit by (simp add: pp_def as1_def i_def w0_def)
  have sub: "set (ass ! i) \<subseteq> set (concat ass)" using C(4) by (rule set_nth_subset_concat)
  have das: "distinct (as1 @ a # as2)" unfolding split using D(7) C(4) by (rule distinct_concat_nth)
  have tail: "chain (nodes w) (deref (table h) (nodes w) pp) (a # as2)"
    unfolding pp_def using chain_after [of "nodes w" "table h" "Bucket i" as1 "a # as2"] ch by simp
  then have dr: "deref (table h) (nodes w) pp = Some a" and rest: "chain (nodes w) (nextp (nodes w a)) as2"
    by simp_all
  have rem: "hash_remove (Some h) (Some k) w =
      (case assign pp (nextp (nodes w a)) h w0 of
         (t, w') \<Rightarrow> Some (data (nodes w a), Some (t\<lparr>count := count t - 1\<rparr>), hash_node_free a w'))"
    using wl [unfolded i_def w0_def] dr by (simp add: hash_remove_def Let_def w0_def)
  have afs: "a \<notin> set fs" "a \<in> set (concat ass)" using D(9) sub sets by auto
  have dnew: "distinct (as1 @ as2)" using das by auto
  have dfs: "distinct (a # fs)" using afs D(8) by simp
  have disj: "set (as1 @ as2) \<inter> set (a # fs) = {}"
    using D(9) das sub sets by (auto simp del: set_concat)
  have own: "b \<in> set (ass ! i)" if "b \<in> set (as1 @ as2) \<union> set (a # fs)" "b \<in> set (concat ass)" for b
    using that D(9) sets by (auto simp del: set_concat)
  have bnd: "b < brk w" if mem: "b \<in> set (as1 @ as2) \<union> set (a # fs)" for b
  proof -
    consider "b \<in> set (ass ! i)" | "b \<in> set fs" using mem sets by auto
    then show ?thesis
    proof cases
      case 1
      then have "b \<in> set (concat ass)" using sub by blast
      then show ?thesis by (rule D(10))
    qed (use D(11) in blast)
  qed
  show ?thesis
  proof (cases "as1 = []")
    case True
    define h' where "h' = h\<lparr>table := (table h)[i := nextp (nodes w a)], count := count h - 1\<rparr>"
    define w' where "w' = hash_node_free a w0"
    have pp: "pp = Bucket i" using True by (simp add: walk_pp_def pp_def)
    have res: "hash_remove (Some h) (Some k) w = Some (data (nodes w a), Some h', w')"
      unfolding rem pp h'_def w'_def by simp
    have h': "size_h h' = size_h h" "length (table h') = length (table h)"
      "table h' ! i = nextp (nodes w a)" "\<And>j. j \<noteq> i \<Longrightarrow> table h' ! j = table h ! j"
      "count h' = count h - 1" "cmp_f h' = cmp_f h" "del_f h' = del_f h" "key_f h' = key_f h"
      using i D(3) by (simp_all add: h'_def)
    have m': "nodes w' = (nodes w)(a := (nodes w a)\<lparr>nextp := hash_free_list w\<rparr>)"
      "hash_free_list w' = Some a" "brk w' = brk w" "ext w' = ext w" "errno w' = 0"
      "hash_mem_list w' = hash_mem_list w" "avail w' = avail w"
      by (simp_all add: w'_def hash_node_free_def m0)
    have ok': "heap_ok h' w' (ass[i := as1 @ as2]) (a # fs)"
    proof (rule heap_ok_update [OF table_invD(1) [OF inv] i])
      have "a \<notin> set as2" using das by auto
      then show "chain (nodes w') (table h' ! i) (as1 @ as2)"
        using rest True by (simp add: h' m' chain_upd)
      show "chain (nodes w') (hash_free_list w') (a # fs)"
        using D(6) afs(1) by (simp add: m' chain_upd)
      show "nextp (nodes w' b) = nextp (nodes w b)" if "b \<in> set (concat ass)" "b \<notin> set (ass ! i)" for b
        using that sets by (auto simp: m')
      show "b < brk w'" if "b \<in> set (as1 @ as2) \<union> set (a # fs)" for b
        using bnd [OF that] by (simp add: m')
    qed (use h' dnew disj own dfs in \<open>simp_all add: m'\<close>)
    have pay: "\<forall>b. hkey (nodes w' b) = hkey (nodes w b) \<and> data (nodes w' b) = data (nodes w b)"
      by (simp add: m')
    show ?thesis
      by (intro exI [of _ h'] exI [of _ w'] conjI)
        (rule res ok' [unfolded as1_def as2_def i_def] fk' pay h'(1,5-8) m'(3-7))+
  next
    case False
    define l where "l = last as1"
    define h' where "h' = h\<lparr>count := count h - 1\<rparr>"
    define m1 where "m1 = (nodes w)(l := (nodes w l)\<lparr>nextp := nextp (nodes w a)\<rparr>)"
    define w' where "w' = hash_node_free a (w0\<lparr>nodes := m1\<rparr>)"
    have pp: "pp = NextOf l" using False by (simp add: walk_pp_def pp_def l_def)
    have l: "l \<in> set as1" using False by (simp add: l_def)
    then have las: "l \<in> set (ass ! i)" using sets by simp
    have la: "l \<noteq> a" using l das by auto
    have res: "hash_remove (Some h) (Some k) w = Some (data (nodes w a), Some h', w')"
      unfolding rem pp h'_def w'_def m1_def by (simp add: m0)
    have m': "nodes w' = m1(a := (m1 a)\<lparr>nextp := hash_free_list w\<rparr>)"
      "hash_free_list w' = Some a" "brk w' = brk w" "ext w' = ext w" "errno w' = 0"
      "hash_mem_list w' = hash_mem_list w" "avail w' = avail w"
      by (simp_all add: w'_def hash_node_free_def m0)
    have un: "chain m1 (table h ! i) (as1 @ as2)"
      unfolding m1_def l_def using ch das False by (rule chain_unlink)
    have ok': "heap_ok h' w' (ass[i := as1 @ as2]) (a # fs)"
    proof (rule heap_ok_update [OF table_invD(1) [OF inv] i])
      have "a \<notin> set (as1 @ as2)" using das by auto
      then show "chain (nodes w') (table h' ! i) (as1 @ as2)"
        using un by (simp add: h'_def m' chain_upd)
      have "l \<notin> set fs" using las sub D(9) by blast
      then have "chain m1 (hash_free_list w) fs" using D(6) by (simp add: m1_def chain_upd)
      then show "chain (nodes w') (hash_free_list w') (a # fs)"
        using afs(1) by (simp add: m' chain_upd)
      show "nextp (nodes w' b) = nextp (nodes w b)" if "b \<in> set (concat ass)" "b \<notin> set (ass ! i)" for b
        using that sets las by (auto simp: m' m1_def)
      show "b < brk w'" if "b \<in> set (as1 @ as2) \<union> set (a # fs)" for b
        using bnd [OF that] by (simp add: m')
    qed (use dnew disj own dfs in \<open>simp_all add: m' h'_def\<close>)
    have pay: "\<forall>b. hkey (nodes w' b) = hkey (nodes w b) \<and> data (nodes w' b) = data (nodes w b)"
      by (simp add: m' m1_def)
    have h': "size_h h' = size_h h" "count h' = count h - 1" "cmp_f h' = cmp_f h" "del_f h' = del_f h"
      "key_f h' = key_f h"
      by (simp_all add: h'_def)
    show ?thesis
      by (intro exI [of _ h'] exI [of _ w'] conjI)
        (rule res ok' [unfolded as1_def as2_def i_def] fk' pay h' m'(3-7))+
  qed
qed

lemma strict_chain_cong:
  assumes "cmp_f h' = cmp_f h" "\<And>a. a \<in> set as \<Longrightarrow> hkey (nodes w' a) = hkey (nodes w a)"
  shows "strict_chain h' w' as = strict_chain h w as"
  unfolding strict_chain_def
  by (rule iffI; erule sorted_wrt_mono_rel [rotated]; simp add: assms)

lemma slot_of_cong: "key_f h' = key_f h \<Longrightarrow> size_h h' = size_h h \<Longrightarrow> slot_of h' key = slot_of h key"
  by (simp add: slot_of_def)

lemma in_concatE:
  assumes "a \<in> set (concat ass)"
  obtains i where "i < length ass" "a \<in> set (ass ! i)"
proof -
  obtain as where "as \<in> set ass" "a \<in> set as" using assms by auto
  then show ?thesis using that by (metis in_set_conv_nth)
qed

lemma table_invI:
  assumes cmp: "cmp_ok (cmp_f h)" and ok: "heap_ok h w ass fs"
    and cnt: "count h = int (length (concat ass))"
    and st: "\<And>i. i < length ass \<Longrightarrow> strict_chain h w (ass ! i)"
    and lv: "\<And>i a. i < length ass \<Longrightarrow> a \<in> set (ass ! i) \<Longrightarrow>
               live w a \<and> slot_of h (hkey (nodes w a)) = i"
  shows "table_inv h w ass fs"
proof -
  have live: "inv_live w ass"
    unfolding inv_live_iff using lv by (auto elim!: in_concatE simp del: set_concat)
  moreover have "inv_placed h w ass" unfolding inv_placed_iff using lv by blast
  moreover have "inv_count h ass" using cnt by (simp add: inv_count_def length_concat)
  moreover have "inv_nodup h w ass \<and> inv_ascending h w ass"
    unfolding inv_sorted_iff [OF cmp live] using st by blast
  ultimately show ?thesis using ok by (simp add: table_inv_def)
qed

lemma table_inv_ix:
  assumes inv: "table_inv h w ass fs" and cmp: "cmp_ok (cmp_f h)"
  shows "count h = int (length (concat ass))"
    and "\<And>i. i < length ass \<Longrightarrow> strict_chain h w (ass ! i)"
    and "\<And>i a. i < length ass \<Longrightarrow> a \<in> set (ass ! i) \<Longrightarrow> live w a"
    and "\<And>i a. i < length ass \<Longrightarrow> a \<in> set (ass ! i) \<Longrightarrow> slot_of h (hkey (nodes w a)) = i"
proof -
  note T = table_invD [OF inv]
  show "count h = int (length (concat ass))" using T(4) by (simp add: inv_count_def length_concat)
  show "strict_chain h w (ass ! i)" if "i < length ass" for i
    using inv_sorted_iff [OF cmp T(2)] T(5,6) that by blast
  show "live w a" if "i < length ass" "a \<in> set (ass ! i)" for i a
    using T(2) nth_in_concat [OF that] unfolding inv_live_iff by blast
  show "slot_of h (hkey (nodes w a)) = i" if "i < length ass" "a \<in> set (ass ! i)" for i a
    using T(3) that unfolding inv_placed_iff by blast
qed

lemma length_concat_upd:
  assumes "i < length ass"
  shows "int (length (concat (ass[i := bs]))) =
         int (length (concat ass)) + int (length bs) - int (length (ass ! i))"
  unfolding concat_upd_split [OF assms] using concat_nth_split [OF assms] by simp

lemma table_inv_update:
  assumes inv: "table_inv h w ass fs" and cmp: "cmp_ok (cmp_f h)" and i: "i < length ass"
    and ok': "heap_ok h' w' (ass[i := bs]) fs'"
    and same: "cmp_f h' = cmp_f h" "key_f h' = key_f h" "size_h h' = size_h h"
    and pay: "\<forall>a\<in>set (concat ass). hkey (nodes w' a) = hkey (nodes w a) \<and> data (nodes w' a) = data (nodes w a)"
    and cnt: "count h' = count h + int (length bs) - int (length (ass ! i))"
    and st: "strict_chain h' w' bs"
    and lv: "\<And>a. a \<in> set bs \<Longrightarrow> live w' a \<and> slot_of h' (hkey (nodes w' a)) = i"
  shows "table_inv h' w' (ass[i := bs]) fs'"
proof (rule table_invI)
  note X = table_inv_ix [OF inv cmp]
  show "cmp_ok (cmp_f h')" using cmp same by simp
  show "heap_ok h' w' (ass[i := bs]) fs'" by (rule ok')
  show "count h' = int (length (concat (ass[i := bs])))"
    using cnt X(1) length_concat_upd [OF i, of bs] by simp
  have old: "hkey (nodes w' a) = hkey (nodes w a)" "data (nodes w' a) = data (nodes w a)"
    if "j < length ass" "a \<in> set (ass ! j)" for j a
    using pay nth_in_concat [OF that] by blast+
  show "strict_chain h' w' (ass[i := bs] ! j)" if "j < length (ass[i := bs])" for j
  proof (cases "j = i")
    case True
    then show ?thesis using st i by simp
  next
    case False
    have j: "j < length ass" using that by simp
    have "strict_chain h' w' (ass ! j) = strict_chain h w (ass ! j)"
      using same(1) old(1) [OF j] by (rule strict_chain_cong)
    then show ?thesis using X(2) [OF j] False by simp
  qed
  show "live w' a \<and> slot_of h' (hkey (nodes w' a)) = j"
    if "j < length (ass[i := bs])" "a \<in> set (ass[i := bs] ! j)" for j a
  proof (cases "j = i")
    case True
    then show ?thesis using lv that i by simp
  next
    case False
    have j: "j < length ass" "a \<in> set (ass ! j)" using that False by simp_all
    show ?thesis
      using X(3) [OF j] X(4) [OF j] old [OF j] slot_of_cong [OF same(2,3)]
      by (simp add: live_def)
  qed
qed

subsection \<open>The example table satisfies the invariant\<close>

lemma cmp_ok_ex: "cmp_ok (cmp_f h_ex)"
  by (simp add: cmp_ok_def h_ex_def cmp_nat_def)

lemma key_ok_ex: "key_ok h_ex"
  by (simp add: key_ok_def h_ex_def cmp_nat_def key_nat_def)

lemma slot_ex: "slot_of h_ex (Some 2) = 0" "slot_of h_ex (Some 4) = 0" "slot_of h_ex (Some 3) = 1"
  by (simp_all add: slot_of_def h_ex_def key_nat_def)

lemma heap_ok_ex: "heap_ok h_ex w_ex ass_ex fs_ex"
  by (simp add: heap_ok_def h_ex_def w_ex_def m_ex_def ass_ex_def fs_ex_def zero_node_def)

lemma table_inv_ex: "table_inv h_ex w_ex ass_ex fs_ex"
  unfolding table_inv_def
  apply (intro conjI heap_ok_ex)
      apply (simp add: inv_live_def w_ex_def m_ex_def ass_ex_def)
     apply (simp add: inv_placed_def w_ex_def m_ex_def ass_ex_def slot_ex)
    apply (simp add: inv_count_def h_ex_def ass_ex_def)
   apply (simp add: inv_nodup_def keys_of_def w_ex_def m_ex_def ass_ex_def h_ex_def cmp_nat_def)
  apply (simp add: inv_ascending_def keys_of_def w_ex_def m_ex_def ass_ex_def h_ex_def cmp_nat_def)
  done

text \<open>The four updating operations, run on the example table.\<close>

lemma hash_insert_ex: "\<exists>h' w'. hash_insert (Some h_ex) (Some 6) (Some 60) w_ex = Some (Some 60, Some h', w') \<and>
    heap_ok h' w' [[100, 124, 172], [148]] [] \<and> count h' = 4"
  by (simp add: hash_insert_def h_ex_def w_ex_def m_ex_def slot_of_def key_nat_def cmp_nat_def
     walk_loop.simps hash_node_alloc_def Let_def zero_node_def heap_ok_def)

lemma hash_remove_ex: "\<exists>h' w'. hash_remove (Some h_ex) (Some 4) w_ex = Some (Some 40, Some h', w') \<and>
    heap_ok h' w' [[100], [148]] [124, 172] \<and> count h' = 2"
  by (simp add: hash_remove_def h_ex_def w_ex_def m_ex_def slot_of_def key_nat_def cmp_nat_def
     walk_loop.simps hash_node_free_def Let_def zero_node_def heap_ok_def)

lemma hash_delete_if_ex: "\<exists>h' w'. hash_delete_if (Some h_ex) (Some argf_ex) () w_ex = Some (2, Some h', w') \<and>
    heap_ok h' w' [[100], []] [148, 124, 172] \<and> count h' = 1"
  by (simp add: hash_delete_if_def h_ex_def w_ex_def m_ex_def argf_ex_def del_log_def
     delete_if_buckets.simps delete_if_chain.simps call_del_f_def hash_node_free_def Let_def
     zero_node_def heap_ok_def)

lemma hash_reset_ex: "\<exists>h' w'. hash_reset (Some h_ex) w_ex = Some (Some h', w') \<and>
    heap_ok h' w' [[], []] [148, 124, 100, 172] \<and> count h' = 0"
  by (simp add: hash_reset_def h_ex_def w_ex_def m_ex_def del_log_def
     reset_buckets.simps reset_chain.simps call_del_f_def hash_node_free_def Let_def
     zero_node_def heap_ok_def)


subsection \<open>Insertion and removal keep the invariant\<close>

lemma table_inv_insert:
  assumes inv: "table_inv h w ass fs" and cmp: "cmp_ok (cmp_f h)"
    and hit: "hit h w (Some k) (ass ! slot_of h (Some k)) = None"
    and al: "hash_node_alloc w = (Some p, w1)"
  shows "\<exists>h' w' ass'. hash_insert (Some h) (Some k) (Some d) w = Some (Some d, Some h', w') \<and>
     table_inv h' w' ass' (alloc_rest w fs) \<and> cmp_f h' = cmp_f h \<and> key_f h' = key_f h \<and>
     size_h h' = size_h h \<and> del_f h' = del_f h \<and> count h' = count h + 1 \<and>
     ext w' = ext w \<and> errno w' = errno w \<and>
     length ass' = length ass \<and> set (concat ass') = insert p (set (concat ass)) \<and>
     p \<notin> set (concat ass) \<and>
     hit h' w' (Some k) (ass' ! slot_of h (Some k)) = Some p \<and>
     hkey (nodes w' p) = Some k \<and> data (nodes w' p) = Some d \<and>
     (\<forall>a\<in>set (concat ass). hkey (nodes w' a) = hkey (nodes w a) \<and> data (nodes w' a) = data (nodes w a))"
proof -
  note D = heap_okD [OF table_invD(1) [OF inv]]
  define i where "i = slot_of h (Some k)"
  define as1 where "as1 = below h w (Some k) (ass ! i)"
  define as2 where "as2 = from_key h w (Some k) (ass ! i)"
  define ass' where "ass' = ass[i := as1 @ p # as2]"
  have i: "i < nat (size_h h)" unfolding i_def using D(1,2) by (rule slot_of_less)
  note C = table_inv_chain [OF inv cmp i]
  note X = table_inv_ix [OF inv cmp]
  have split: "as1 @ as2 = ass ! i" unfolding as1_def as2_def by (rule below_from_key)
  have sets: "set (ass ! i) = set as1 \<union> set as2" using arg_cong [OF split, of set] by simp
  obtain h' w' where R: "hash_insert (Some h) (Some k) (Some d) w = Some (Some d, Some h', w')"
    "heap_ok h' w' ass' (alloc_rest w fs)"
    "hkey (nodes w' p) = Some k" "data (nodes w' p) = Some d" "p \<notin> set (concat ass)"
    "\<forall>a\<in>set (concat ass). hkey (nodes w' a) = hkey (nodes w a) \<and> data (nodes w' a) = data (nodes w a)"
    "count h' = count h + 1" "size_h h' = size_h h" "cmp_f h' = cmp_f h" "del_f h' = del_f h"
    "key_f h' = key_f h" "ext w' = ext w" "errno w' = errno w"
    using hash_insert_new [OF inv cmp hit al, of d]
    unfolding i_def [symmetric] as1_def [symmetric] as2_def [symmetric] ass'_def [symmetric]
    by blast
  have old: "hkey (nodes w' a) = hkey (nodes w a)" "data (nodes w' a) = data (nodes w a)"
    if "a \<in> set (ass ! i)" for a
    using R(6) nth_in_concat [OF C(4) that] by blast+
  have st_old: "strict_chain h' w' (as1 @ as2)"
    unfolding split using strict_chain_cong [OF R(9) old(1), of "ass ! i"] C(2) by simp
  have key_old: "\<exists>x. hkey (nodes w a) = Some x" if "a \<in> set (ass ! i)" for a
    using C(3) that by (auto simp: live_def)
  have lt1: "cmp_f h (hkey (nodes w a)) (Some k) < 0" if "a \<in> set as1" for a
    using that below_lt unfolding as1_def by blast
  have gt2: "cmp_f h (Some k) (hkey (nodes w b)) < 0" if "b \<in> set as2" for b
  proof -
    have b: "b \<in> set (ass ! i)" using that sets by simp
    have ge: "0 \<le> cmp_f h (hkey (nodes w b)) (Some k)"
      using from_key_ge [OF cmp C(3) C(2)] that unfolding as2_def by blast
    have "cmp_f h (hkey (nodes w b)) (Some k) \<noteq> 0"
      using hit hit_None_iff [OF cmp C(3) C(2), of k] b unfolding i_def by blast
    moreover obtain x where "hkey (nodes w b) = Some x" using key_old [OF b] by blast
    ultimately show ?thesis using ge cmp_ok_swap [OF cmp, of k x] by simp
  qed
  have st: "strict_chain h' w' (as1 @ p # as2)"
    using st_old lt1 gt2 old sets
    by (simp add: strict_chain_append strict_chain_Cons R(3,9))
  have lv: "live w' a \<and> slot_of h' (hkey (nodes w' a)) = i" if "a \<in> set (as1 @ p # as2)" for a
  proof (cases "a = p")
    case True
    then show ?thesis using R(3,4) slot_of_cong [OF R(11,8)] by (simp add: live_def i_def)
  next
    case False
    then have a: "a \<in> set (ass ! i)" using that sets by auto
    show ?thesis
      using X(3) [OF C(4) a] X(4) [OF C(4) a] old [OF a] slot_of_cong [OF R(11,8)]
      by (simp add: live_def)
  qed
  have inv': "table_inv h' w' ass' (alloc_rest w fs)"
    unfolding ass'_def using inv cmp C(4) R(2) [unfolded ass'_def] R(9,11,8) R(6) _ st lv
  proof (rule table_inv_update)
    show "count h' = count h + int (length (as1 @ p # as2)) - int (length (ass ! i))"
      using R(7) arg_cong [OF split, of length] by simp
  qed
  have hitp: "hit h' w' (Some k) (ass' ! i) = Some p"
  proof (rule hit_SomeI)
    show "cmp_ok (cmp_f h')" using cmp R(9) by simp
    show "\<forall>a\<in>set (ass' ! i). live w' a" using lv C(4) by (simp add: ass'_def)
    show "strict_chain h' w' (ass' ! i)" using st C(4) by (simp add: ass'_def)
    show "p \<in> set (ass' ! i)" using C(4) by (simp add: ass'_def)
    show "cmp_f h' (hkey (nodes w' p)) (Some k) = 0"
      using cmp_ok_refl [OF cmp, of k] by (simp add: R(3,9))
  qed
  have setc: "set (concat ass') = insert p (set (concat ass))"
    unfolding ass'_def concat_upd_split [OF C(4)]
    using arg_cong [OF concat_nth_split [OF C(4)], of set] sets by auto
  show ?thesis
    by (intro exI [of _ h'] exI [of _ w'] exI [of _ ass'] conjI)
      (rule R inv' hitp [unfolded i_def] setc | simp add: ass'_def)+
qed

lemma table_inv_remove:
  assumes inv: "table_inv h w ass fs" and cmp: "cmp_ok (cmp_f h)"
    and hit: "hit h w (Some k) (ass ! slot_of h (Some k)) = Some a"
  shows "\<exists>h' w' ass'. hash_remove (Some h) (Some k) w = Some (data (nodes w a), Some h', w') \<and>
     table_inv h' w' ass' (a # fs) \<and> cmp_f h' = cmp_f h \<and> key_f h' = key_f h \<and>
     size_h h' = size_h h \<and> del_f h' = del_f h \<and> count h' = count h - 1 \<and>
     ext w' = ext w \<and> errno w' = 0 \<and>
     length ass' = length ass \<and> set (concat ass') = set (concat ass) - {a} \<and>
     a \<in> set (concat ass) \<and>
     hit h' w' (Some k) (ass' ! slot_of h (Some k)) = None \<and>
     (\<forall>b. hkey (nodes w' b) = hkey (nodes w b) \<and> data (nodes w' b) = data (nodes w b))"
proof -
  note D = heap_okD [OF table_invD(1) [OF inv]]
  define i where "i = slot_of h (Some k)"
  define as1 where "as1 = below h w (Some k) (ass ! i)"
  define as2 where "as2 = tl (from_key h w (Some k) (ass ! i))"
  define ass' where "ass' = ass[i := as1 @ as2]"
  have i: "i < nat (size_h h)" unfolding i_def using D(1,2) by (rule slot_of_less)
  note C = table_inv_chain [OF inv cmp i]
  note X = table_inv_ix [OF inv cmp]
  obtain h' w' where R: "hash_remove (Some h) (Some k) w = Some (data (nodes w a), Some h', w')"
    "heap_ok h' w' ass' (a # fs)"
    "from_key h w (Some k) (ass ! i) = a # as2"
    "\<forall>b. hkey (nodes w' b) = hkey (nodes w b) \<and> data (nodes w' b) = data (nodes w b)"
    "count h' = count h - 1" "size_h h' = size_h h" "cmp_f h' = cmp_f h" "del_f h' = del_f h"
    "key_f h' = key_f h" "ext w' = ext w" "errno w' = 0"
    using hash_remove_found [OF inv cmp hit]
    unfolding i_def [symmetric] as1_def [symmetric] as2_def [symmetric] ass'_def [symmetric]
    by blast
  have split: "as1 @ a # as2 = ass ! i"
    unfolding as1_def R(3) [symmetric] by (rule below_from_key)
  have sets: "set (ass ! i) = set as1 \<union> insert a (set as2)" using arg_cong [OF split, of set] by simp
  have dist: "distinct (as1 @ a # as2)" unfolding split using D(7) C(4) by (rule distinct_concat_nth)
  have eqa: "cmp_f h (hkey (nodes w a)) (Some k) = 0"
    using hit_SomeD(2) [OF hit] .
  have st0: "strict_chain h w (as1 @ a # as2)" unfolding split by (rule C(2))
  have st_old: "strict_chain h w (as1 @ as2)"
    using st0 by (simp add: strict_chain_append strict_chain_Cons)
  have st: "strict_chain h' w' (as1 @ as2)"
    using strict_chain_cong [OF R(7), of "as1 @ as2" w' w] R(4) st_old by simp
  have lv: "live w' b \<and> slot_of h' (hkey (nodes w' b)) = i" if "b \<in> set (as1 @ as2)" for b
  proof -
    have b: "b \<in> set (ass ! i)" using that sets by auto
    show ?thesis
      using X(3) [OF C(4) b] X(4) [OF C(4) b] R(4) slot_of_cong [OF R(9,6)]
      by (simp add: live_def)
  qed
  have inv': "table_inv h' w' ass' (a # fs)"
    unfolding ass'_def using inv cmp C(4) R(2) [unfolded ass'_def] R(7,9,6) _ _ st lv
  proof (rule table_inv_update)
    show "count h' = count h + int (length (as1 @ as2)) - int (length (ass ! i))"
      using R(5) arg_cong [OF split, of length] by simp
    show "\<forall>a\<in>set (concat ass). hkey (nodes w' a) = hkey (nodes w a) \<and> data (nodes w' a) = data (nodes w a)"
      using R(4) by blast
  qed
  have ne: "cmp_f h' (hkey (nodes w' b)) (Some k) \<noteq> 0" if "b \<in> set (as1 @ as2)" for b
  proof (cases "b \<in> set as1")
    case True
    then have "cmp_f h (hkey (nodes w b)) (Some k) < 0" using below_lt unfolding as1_def by blast
    then show ?thesis using R(4,7) by simp
  next
    case False
    then have b2: "b \<in> set as2" using that by simp
    then have ab: "cmp_f h (hkey (nodes w a)) (hkey (nodes w b)) < 0"
      using st0 by (simp add: strict_chain_append strict_chain_Cons)
    have "a \<in> set (ass ! i)" "b \<in> set (ass ! i)" using sets b2 by simp_all
    then obtain x y where xy: "hkey (nodes w a) = Some x" "hkey (nodes w b) = Some y"
      using live_keyE [OF C(3), of a] live_keyE [OF C(3), of b] by metis
    have "cmp_f h (Some k) (Some x) = 0" using cmp_ok_sym [OF cmp] eqa xy by simp
    then have "cmp_f h (Some k) (Some y) < 0"
      using cmp_ok_le_less_trans [OF cmp, of k x y] ab xy by simp
    then have "0 < cmp_f h (Some y) (Some k)" using cmp_ok_swap [OF cmp, of k y] by simp
    then show ?thesis using R(4,7) xy by simp
  qed
  have hitn: "hit h' w' (Some k) (ass' ! i) = None"
  proof (cases "hit h' w' (Some k) (ass' ! i)")
    case (Some b)
    then have "b \<in> set (as1 @ as2)" "cmp_f h' (hkey (nodes w' b)) (Some k) = 0"
      using hit_SomeD [OF Some] C(4) by (simp_all add: ass'_def)
    then show ?thesis using ne by blast
  qed simp
  have ain: "a \<in> set (concat ass)" using nth_in_concat [OF C(4)] sets by blast
  have setc: "set (concat ass') = set (concat ass) - {a}"
  proof -
    have "distinct (concat (take i ass) @ (as1 @ a # as2) @ concat (drop (Suc i) ass))"
      using D(7) concat_nth_split [OF C(4)] split by simp
    then show ?thesis
      unfolding ass'_def concat_upd_split [OF C(4)]
      using arg_cong [OF concat_nth_split [OF C(4)], of set] split [symmetric] by auto
  qed
  show ?thesis
    by (intro exI [of _ h'] exI [of _ w'] exI [of _ ass'] conjI)
      (rule R inv' hitn [unfolded i_def] setc ain | simp add: ass'_def)+
qed

subsection \<open>Lookup\<close>

text \<open>
  C2. In a table that satisfies the invariant, with a comparison that is a strict total
  order and a key hash that respects it, \<^verbatim>\<open>hash_find\<close> with a key that is not \<^verbatim>\<open>NULL\<close>
  takes the bucket \<open>key_f key mod size\<close>, returns with \<open>errno = 0\<close> what the walk of
  the specification computes on that chain (negative: next node, zero: the node's item,
  positive: stop with \<^verbatim>\<open>NULL\<close>), and this is the item \<open>d\<close> exactly when some entry of
  the table has a key that compares equal and carries \<open>d\<close>; it is \<^verbatim>\<open>NULL\<close> exactly when
  no entry of the table compares equal.
\<close>

theorem hash_find_correct:
  assumes inv: "table_inv h w ass fs" and cmp: "cmp_ok (cmp_f h)" and key: "key_ok h"
  shows "slot_of h (Some k) = unat (key_f h (Some k)) mod nat (size_h h) \<and>
    hash_find (Some h) (Some k) w =
      Some (spec_find (cmp_f h) (Some k) (map (nodes w) (ass ! slot_of h (Some k))), w\<lparr>errno := 0\<rparr>) \<and>
    (\<forall>d. spec_find (cmp_f h) (Some k) (map (nodes w) (ass ! slot_of h (Some k))) = Some d \<longleftrightarrow>
       (\<exists>a\<in>set (concat ass). cmp_f h (hkey (nodes w a)) (Some k) = 0 \<and> data (nodes w a) = Some d)) \<and>
    (spec_find (cmp_f h) (Some k) (map (nodes w) (ass ! slot_of h (Some k))) = None \<longleftrightarrow>
       (\<forall>a\<in>set (concat ass). cmp_f h (hkey (nodes w a)) (Some k) \<noteq> 0))"
proof -
  note T = table_invD [OF inv]
  note D = heap_okD [OF T(1)]
  let ?i = "slot_of h (Some k)"
  let ?r = "case hit h w (Some k) (ass ! ?i) of None \<Rightarrow> None | Some a \<Rightarrow> data (nodes w a)"
  have i: "?i < nat (size_h h)" using D(1,2) by (rule slot_of_less)
  note C = table_inv_chain [OF inv cmp i]
  have hitI: "hit h w (Some k) (ass ! ?i) = Some a"
    if "a \<in> set (concat ass)" "cmp_f h (hkey (nodes w a)) (Some k) = 0" for a
    using hit_SomeI [OF cmp C(3) C(2) equal_key_slot [OF inv cmp key that] that(2)] .
  have hitD: "a \<in> set (concat ass) \<and> cmp_f h (hkey (nodes w a)) (Some k) = 0"
    if "hit h w (Some k) (ass ! ?i) = Some a" for a
    using hit_SomeD [OF that] nth_in_concat [OF C(4)] by blast
  have dat: "data (nodes w a) \<noteq> None" if "a \<in> set (concat ass)" for a
    using T(2) that unfolding inv_live_iff live_def by blast
  have 1: "?r = Some d \<longleftrightarrow>
       (\<exists>a\<in>set (concat ass). cmp_f h (hkey (nodes w a)) (Some k) = 0 \<and> data (nodes w a) = Some d)" for d
  proof
    assume "?r = Some d"
    then obtain a where "hit h w (Some k) (ass ! ?i) = Some a" "data (nodes w a) = Some d"
      by (auto split: option.splits)
    then show "\<exists>a\<in>set (concat ass). cmp_f h (hkey (nodes w a)) (Some k) = 0 \<and> data (nodes w a) = Some d"
      using hitD by blast
  next
    assume "\<exists>a\<in>set (concat ass). cmp_f h (hkey (nodes w a)) (Some k) = 0 \<and> data (nodes w a) = Some d"
    then obtain a where a: "a \<in> set (concat ass)" "cmp_f h (hkey (nodes w a)) (Some k) = 0"
      "data (nodes w a) = Some d" by blast
    then show "?r = Some d" using hitI [OF a(1,2)] by simp
  qed
  have 2: "?r = None \<longleftrightarrow> (\<forall>a\<in>set (concat ass). cmp_f h (hkey (nodes w a)) (Some k) \<noteq> 0)"
  proof
    assume r: "?r = None"
    show "\<forall>a\<in>set (concat ass). cmp_f h (hkey (nodes w a)) (Some k) \<noteq> 0"
    proof (intro ballI notI)
      fix a assume a: "a \<in> set (concat ass)" "cmp_f h (hkey (nodes w a)) (Some k) = 0"
      then show False using hitI [OF a] r dat [OF a(1)] by simp
    qed
  next
    assume "\<forall>a\<in>set (concat ass). cmp_f h (hkey (nodes w a)) (Some k) \<noteq> 0"
    then have "hit h w (Some k) (ass ! ?i) = None"
      using hitD by (cases "hit h w (Some k) (ass ! ?i)") auto
    then show "?r = None" by simp
  qed
  show ?thesis
    unfolding spec_find_hit
    using slot_of_mod [OF D(1,2)] hash_find_hit [OF inv cmp] 1 2 by blast
qed

theorem hash_find_correct_witness:
  "hash_find (Some h_ex) (Some 4) w_ex = Some (Some 40, w_ex\<lparr>errno := 0\<rparr>) \<and>
   hash_find (Some h_ex) (Some 5) w_ex = Some (None, w_ex\<lparr>errno := 0\<rparr>)"
  using hash_find_correct [OF table_inv_ex cmp_ok_ex key_ok_ex, of 4]
    hash_find_correct [OF table_inv_ex cmp_ok_ex key_ok_ex, of 5]
  by (simp add: slot_of_def h_ex_def key_nat_def cmp_nat_def ass_ex_def w_ex_def m_ex_def)

subsection \<open>Inserting a key that is present\<close>

text \<open>
  C3. If some entry of the table already has a key that compares equal to \<open>k\<close>,
  \<^verbatim>\<open>hash_insert\<close> returns \<^verbatim>\<open>NULL\<close> with \<open>errno = EEXIST\<close>; the table object is the one
  passed in (same count, same bucket array), the world differs in \<open>errno\<close> only (the
  node store, the free list, the block list and the system allocator are untouched, so no
  node was allocated or linked), and a lookup of \<open>k\<close> still gives the old item.
\<close>

theorem hash_insert_existing:
  assumes inv: "table_inv h w ass fs" and cmp: "cmp_ok (cmp_f h)" and key: "key_ok h"
    and a: "a \<in> set (concat ass)" and eq: "cmp_f h (hkey (nodes w a)) (Some k) = 0"
  shows "hash_insert (Some h) (Some k) (Some d) w = Some (None, Some h, w\<lparr>errno := EEXIST\<rparr>) \<and>
    table_inv h (w\<lparr>errno := EEXIST\<rparr>) ass fs \<and>
    nodes (w\<lparr>errno := EEXIST\<rparr>) = nodes w \<and>
    hash_free_list (w\<lparr>errno := EEXIST\<rparr>) = hash_free_list w \<and>
    hash_mem_list (w\<lparr>errno := EEXIST\<rparr>) = hash_mem_list w \<and>
    brk (w\<lparr>errno := EEXIST\<rparr>) = brk w \<and>
    hash_find (Some h) (Some k) (w\<lparr>errno := EEXIST\<rparr>) = Some (data (nodes w a), w\<lparr>errno := 0\<rparr>)"
proof -
  let ?i = "slot_of h (Some k)"
  note D = heap_okD [OF table_invD(1) [OF inv]]
  have i: "?i < nat (size_h h)" using D(1,2) by (rule slot_of_less)
  note C = table_inv_chain [OF inv cmp i]
  have hit: "hit h w (Some k) (ass ! ?i) = Some a"
    using hit_SomeI [OF cmp C(3) C(2) equal_key_slot [OF inv cmp key a eq] eq] .
  have inv': "table_inv h (w\<lparr>errno := EEXIST\<rparr>) ass fs"
    using inv by (simp add: table_inv_def heap_ok_def inv_live_def inv_placed_def inv_nodup_def
        inv_ascending_def keys_of_def)
  have "hash_find (Some h) (Some k) (w\<lparr>errno := EEXIST\<rparr>) = Some (data (nodes w a), w\<lparr>errno := 0\<rparr>)"
    using hash_find_hit [OF inv' cmp, of k] hit by simp
  then show ?thesis using hash_insert_exists [OF inv cmp hit, of d] inv' by simp
qed

theorem hash_insert_existing_witness:
  "hash_insert (Some h_ex) (Some 4) (Some 99) w_ex = Some (None, Some h_ex, w_ex\<lparr>errno := EEXIST\<rparr>) \<and>
   hash_find (Some h_ex) (Some 4) (w_ex\<lparr>errno := EEXIST\<rparr>) = Some (Some 40, w_ex\<lparr>errno := 0\<rparr>)"
proof -
  have "124 \<in> set (concat ass_ex)" "cmp_f h_ex (hkey (nodes w_ex 124)) (Some 4) = 0"
    by (simp_all add: ass_ex_def h_ex_def cmp_nat_def w_ex_def m_ex_def)
  from hash_insert_existing [OF table_inv_ex cmp_ok_ex key_ok_ex this, of 99]
  show ?thesis by (simp add: w_ex_def m_ex_def)
qed

subsection \<open>Insert, find, remove, find\<close>

lemma hit_ex: "hit h_ex w_ex (Some 6) (ass_ex ! slot_of h_ex (Some 6)) = None"
  by (simp add: hit_def from_key_def lt_key_def slot_of_def h_ex_def key_nat_def cmp_nat_def
      ass_ex_def w_ex_def m_ex_def)

text \<open>
  C6. In a table that satisfies the invariant, whenever \<^verbatim>\<open>hash_insert\<close> of \<open>k\<close> and
  \<open>d\<close> succeeds (returns an item), it returns \<open>d\<close>; \<^verbatim>\<open>hash_find\<close> of \<open>k\<close> in the
  resulting state returns \<open>d\<close>; \<^verbatim>\<open>hash_remove\<close> of \<open>k\<close> then returns \<open>d\<close>; and
  \<^verbatim>\<open>hash_find\<close> of \<open>k\<close> after the removal returns \<^verbatim>\<open>NULL\<close> with \<open>errno = 0\<close>.
\<close>

theorem insert_find_remove_find:
  assumes inv: "table_inv h w ass fs" and cmp: "cmp_ok (cmp_f h)"
    and ins: "hash_insert (Some h) (Some k) (Some d) w = Some (Some r, h1, w1)"
  shows "r = d \<and>
    hash_find h1 (Some k) w1 = Some (Some d, w1\<lparr>errno := 0\<rparr>) \<and>
    (\<exists>h2 w2. hash_remove h1 (Some k) w1 = Some (Some d, h2, w2) \<and>
       hash_find h2 (Some k) w2 = Some (None, w2\<lparr>errno := 0\<rparr>))"
proof -
  let ?i = "slot_of h (Some k)"
  have hit: "hit h w (Some k) (ass ! ?i) = None"
  proof (cases "hit h w (Some k) (ass ! ?i)")
    case (Some a)
    then show ?thesis using hash_insert_exists [OF inv cmp Some, of d] ins by simp
  qed simp
  obtain p w0 where al: "hash_node_alloc w = (Some p, w0)"
  proof (cases "fst (hash_node_alloc w)")
    case None
    then show ?thesis using hash_insert_oom [OF inv cmp hit None, of d] ins by simp
  next
    case (Some p)
    then show ?thesis using that [of p "snd (hash_node_alloc w)"] by (metis prod.collapse)
  qed
  obtain h' w' ass' where I: "hash_insert (Some h) (Some k) (Some d) w = Some (Some d, Some h', w')"
    "table_inv h' w' ass' (alloc_rest w fs)" "cmp_f h' = cmp_f h" "key_f h' = key_f h"
    "size_h h' = size_h h" "hit h' w' (Some k) (ass' ! ?i) = Some p" "data (nodes w' p) = Some d"
    using table_inv_insert [OF inv cmp hit al, of d] by blast
  have eq: "r = d" "h1 = Some h'" "w1 = w'" using I(1) ins by simp_all
  have cmp': "cmp_ok (cmp_f h')" using cmp I(3) by simp
  have sl: "slot_of h' (Some k) = ?i" using I(4,5) by (rule slot_of_cong)
  have f1: "hash_find (Some h') (Some k) w' = Some (Some d, w'\<lparr>errno := 0\<rparr>)"
    using hash_find_hit [OF I(2) cmp', of k] I(6,7) by (simp add: sl)
  obtain h2 w2 ass2 where R: "hash_remove (Some h') (Some k) w' = Some (data (nodes w' p), Some h2, w2)"
    "table_inv h2 w2 ass2 (p # alloc_rest w fs)" "cmp_f h2 = cmp_f h'" "key_f h2 = key_f h'"
    "size_h h2 = size_h h'" "hit h2 w2 (Some k) (ass2 ! slot_of h' (Some k)) = None"
    using table_inv_remove [OF I(2) cmp' I(6) [folded sl]] by blast
  have cmp2: "cmp_ok (cmp_f h2)" using cmp' R(3) by simp
  have sl2: "slot_of h2 (Some k) = slot_of h' (Some k)" using R(4,5) by (rule slot_of_cong)
  have f2: "hash_find (Some h2) (Some k) w2 = Some (None, w2\<lparr>errno := 0\<rparr>)"
    using hash_find_hit [OF R(2) cmp2, of k] R(6) by (simp add: sl2)
  show ?thesis using f1 R(1) f2 I(7) unfolding eq by auto
qed

theorem insert_find_remove_find_witness:
  "\<exists>h1 w1. hash_insert (Some h_ex) (Some 6) (Some 60) w_ex = Some (Some 60, h1, w1) \<and>
     hash_find h1 (Some 6) w1 = Some (Some 60, w1\<lparr>errno := 0\<rparr>) \<and>
     (\<exists>h2 w2. hash_remove h1 (Some 6) w1 = Some (Some 60, h2, w2) \<and>
        hash_find h2 (Some 6) w2 = Some (None, w2\<lparr>errno := 0\<rparr>))"
proof -
  have "hash_free_list w_ex = Some 172" by (simp add: w_ex_def)
  from table_inv_insert [OF table_inv_ex cmp_ok_ex hit_ex hash_node_alloc_reuse [OF this], of 60]
  obtain h' w' where ins: "hash_insert (Some h_ex) (Some 6) (Some 60) w_ex = Some (Some 60, Some h', w')"
    by blast
  from insert_find_remove_find [OF table_inv_ex cmp_ok_ex ins] ins show ?thesis by blast
qed

subsection \<open>Not found and invalid argument\<close>

text \<open>
  C7. \<^verbatim>\<open>hash_find\<close> and \<^verbatim>\<open>hash_remove\<close> return \<^verbatim>\<open>NULL\<close> with \<open>errno = EINVAL\<close> when the
  table or the key is \<^verbatim>\<open>NULL\<close>, and \<^verbatim>\<open>NULL\<close> with \<open>errno = 0\<close> when the table holds
  no entry whose key compares equal (the table is then unchanged); the two values of
  \<open>errno\<close> differ.
\<close>

theorem find_remove_dual_channel:
  "(h = None \<or> key = None \<longrightarrow>
      hash_find h key w = Some (None, w\<lparr>errno := EINVAL\<rparr>) \<and>
      hash_remove h key w = Some (None, h, w\<lparr>errno := EINVAL\<rparr>)) \<and>
   (table_inv t w ass fs \<and> cmp_ok (cmp_f t) \<and>
    (\<forall>a\<in>set (concat ass). cmp_f t (hkey (nodes w a)) (Some k) \<noteq> 0) \<longrightarrow>
      hash_find (Some t) (Some k) w = Some (None, w\<lparr>errno := 0\<rparr>) \<and>
      hash_remove (Some t) (Some k) w = Some (None, Some t, w\<lparr>errno := 0\<rparr>)) \<and>
   errno (w\<lparr>errno := EINVAL\<rparr>) \<noteq> errno (w\<lparr>errno := 0\<rparr>)"
proof (intro conjI impI)
  assume "h = None \<or> key = None"
  then show "hash_find h key w = Some (None, w\<lparr>errno := EINVAL\<rparr>)"
    by (auto simp: hash_find_def split: option.splits)
  from \<open>h = None \<or> key = None\<close> show "hash_remove h key w = Some (None, h, w\<lparr>errno := EINVAL\<rparr>)"
    by (auto simp: hash_remove_def split: option.splits)
next
  assume a: "table_inv t w ass fs \<and> cmp_ok (cmp_f t) \<and>
    (\<forall>a\<in>set (concat ass). cmp_f t (hkey (nodes w a)) (Some k) \<noteq> 0)"
  then have inv: "table_inv t w ass fs" and cmp: "cmp_ok (cmp_f t)" by simp_all
  let ?i = "slot_of t (Some k)"
  note D = heap_okD [OF table_invD(1) [OF inv]]
  have i: "?i < length ass" using slot_of_less [OF D(1,2)] D(4) by simp
  have hit: "hit t w (Some k) (ass ! ?i) = None"
  proof (cases "hit t w (Some k) (ass ! ?i)")
    case (Some b)
    then show ?thesis using hit_SomeD [OF Some] nth_in_concat [OF i] a by blast
  qed simp
  show "hash_find (Some t) (Some k) w = Some (None, w\<lparr>errno := 0\<rparr>)"
    using hash_find_hit [OF inv cmp, of k] hit by simp
  show "hash_remove (Some t) (Some k) w = Some (None, Some t, w\<lparr>errno := 0\<rparr>)"
    using hit by (rule hash_remove_missing [OF inv cmp])
next
  show "errno (w\<lparr>errno := EINVAL\<rparr>) \<noteq> errno (w\<lparr>errno := 0\<rparr>)"
    by (simp add: EINVAL_def)
qed

theorem find_remove_dual_channel_witness:
  "hash_find (Some h_ex) None w_ex = Some (None, w_ex\<lparr>errno := EINVAL\<rparr>) \<and>
   hash_remove None (Some 4) w_ex = Some (None, None, w_ex\<lparr>errno := EINVAL\<rparr>) \<and>
   hash_find (Some h_ex) (Some 5) w_ex = Some (None, w_ex\<lparr>errno := 0\<rparr>) \<and>
   hash_remove (Some h_ex) (Some 5) w_ex = Some (None, Some h_ex, w_ex\<lparr>errno := 0\<rparr>)"
proof -
  have "\<forall>a\<in>set (concat ass_ex). cmp_f h_ex (hkey (nodes w_ex a)) (Some 5) \<noteq> 0"
    by (simp add: ass_ex_def h_ex_def cmp_nat_def w_ex_def m_ex_def)
  then show ?thesis
    using find_remove_dual_channel [of "Some h_ex" None w_ex h_ex ass_ex fs_ex 5]
      find_remove_dual_channel [of None "Some 4" w_ex h_ex ass_ex fs_ex 5]
      table_inv_ex cmp_ok_ex
    by simp
qed

subsection \<open>The loops of reset and delete_if\<close>

lemma reset_chain_ok:
  assumes "chain (nodes w) p as" "distinct as" "set as \<inter> set fs = {}"
    "chain (nodes w) (hash_free_list w) fs"
  shows "\<exists>w'. reset_chain h p w = Some w' \<and>
     chain (nodes w') (hash_free_list w') (rev as @ fs) \<and>
     ext w' = del_all h (map (\<lambda>a. data (nodes w a)) as) (ext w) \<and>
     (\<forall>b. hkey (nodes w' b) = hkey (nodes w b) \<and> data (nodes w' b) = data (nodes w b)) \<and>
     (\<forall>b. b \<notin> set as \<longrightarrow> nextp (nodes w' b) = nextp (nodes w b)) \<and>
     errno w' = errno w \<and> brk w' = brk w \<and> avail w' = avail w \<and>
     hash_mem_list w' = hash_mem_list w"
  using assms
proof (induction as arbitrary: w p fs)
  case Nil
  then show ?case by (subst reset_chain.simps) (simp add: del_all_def)
next
  case (Cons a as)
  define w1 where "w1 = call_del_f h (data (nodes w a)) w"
  define w2 where "w2 = hash_node_free a w1"
  have p: "p = Some a" and ch: "chain (nodes w) (nextp (nodes w a)) as" using Cons.prems(1) by simp_all
  have m1: "nodes w1 = nodes w" "hash_free_list w1 = hash_free_list w" "errno w1 = errno w"
    "brk w1 = brk w" "avail w1 = avail w" "hash_mem_list w1 = hash_mem_list w"
    "ext w1 = (case del_f h of None \<Rightarrow> ext w | Some f \<Rightarrow> f (data (nodes w a)) (ext w))"
    by (simp_all add: w1_def call_del_f_def split: option.split)
  have m2: "nodes w2 = (nodes w)(a := (nodes w a)\<lparr>nextp := hash_free_list w\<rparr>)"
    "hash_free_list w2 = Some a" "errno w2 = errno w" "brk w2 = brk w" "avail w2 = avail w"
    "hash_mem_list w2 = hash_mem_list w" "ext w2 = ext w1"
    by (simp_all add: w2_def hash_node_free_def m1)
  have step: "reset_chain h p w = reset_chain h (nextp (nodes w a)) w2"
    unfolding p by (subst reset_chain.simps) (simp add: Let_def w1_def w2_def)
  have a: "a \<notin> set as" "a \<notin> set fs" using Cons.prems(2,3) by auto
  have "chain (nodes w2) (nextp (nodes w a)) as" using ch a(1) by (simp add: m2 chain_upd)
  moreover have "distinct as" using Cons.prems(2) by simp
  moreover have "set as \<inter> set (a # fs) = {}" using Cons.prems(2,3) by auto
  moreover have "chain (nodes w2) (hash_free_list w2) (a # fs)"
    using Cons.prems(4) a(2) by (simp add: m2 chain_upd)
  ultimately obtain w' where R: "reset_chain h (nextp (nodes w a)) w2 = Some w'"
    "chain (nodes w') (hash_free_list w') (rev as @ a # fs)"
    "ext w' = del_all h (map (\<lambda>a. data (nodes w2 a)) as) (ext w2)"
    "\<forall>b. hkey (nodes w' b) = hkey (nodes w2 b) \<and> data (nodes w' b) = data (nodes w2 b)"
    "\<forall>b. b \<notin> set as \<longrightarrow> nextp (nodes w' b) = nextp (nodes w2 b)"
    "errno w' = errno w2" "brk w' = brk w2" "avail w' = avail w2"
    "hash_mem_list w' = hash_mem_list w2"
    using Cons.IH [of w2 "nextp (nodes w a)" "a # fs"] by blast
  have d2: "map (\<lambda>a. data (nodes w2 a)) as = map (\<lambda>a. data (nodes w a)) as"
    by (rule map_cong) (simp_all add: m2)
  have e: "ext w' = del_all h (map (\<lambda>a. data (nodes w a)) (a # as)) (ext w)"
    unfolding R(3) d2 m2(7) m1(7) by (simp add: del_all_def)
  have pay: "\<forall>b. hkey (nodes w' b) = hkey (nodes w b) \<and> data (nodes w' b) = data (nodes w b)"
    using R(4) by (simp add: m2)
  have fr: "\<forall>b. b \<notin> set (a # as) \<longrightarrow> nextp (nodes w' b) = nextp (nodes w b)"
    using R(5) by (simp add: m2)
  show ?case
    unfolding step
    by (intro exI [of _ w'] conjI)
      (rule R(1) e pay fr | simp add: R m2)+
qed

lemma reset_buckets_ok:
  assumes "heap_ok h w ass fs" "i \<le> nat (size_h h)" "\<forall>j<i. ass ! j = []"
  shows "\<exists>h' w'. reset_buckets (int i) h w = Some (h', w') \<and>
     heap_ok h' w' (replicate (nat (size_h h)) []) (rev (concat (drop i ass)) @ fs) \<and>
     h' = h\<lparr>table := replicate (nat (size_h h)) None\<rparr> \<and>
     ext w' = del_all h (map (\<lambda>a. data (nodes w a)) (concat (drop i ass))) (ext w) \<and>
     (\<forall>b. hkey (nodes w' b) = hkey (nodes w b) \<and> data (nodes w' b) = data (nodes w b)) \<and>
     errno w' = errno w \<and> brk w' = brk w \<and> avail w' = avail w \<and>
     hash_mem_list w' = hash_mem_list w"
  using assms
proof (induction "nat (size_h h) - i" arbitrary: i h w ass fs)
  case 0
  note D = heap_okD [OF "0.prems"(1)]
  have i: "i = nat (size_h h)" using 0 by simp
  have stop: "reset_buckets (int i) h w = Some (h, w)"
    by (subst reset_buckets.simps) (use i D(1) in simp)
  have ass: "ass = replicate (nat (size_h h)) []"
    using "0.prems"(3) D(4) i by (intro nth_equalityI) simp_all
  have "table h ! j = None" if "j < nat (size_h h)" for j
    using D(5) [OF that] that ass by (metis chain.simps(1) nth_replicate)
  then have tbl: "table h = replicate (nat (size_h h)) None"
    using D(3) by (intro nth_equalityI) simp_all
  have "h = h\<lparr>table := replicate (nat (size_h h)) None\<rparr>"
    using tbl by (cases h) simp
  moreover have "drop i ass = []" using D(4) i by simp
  ultimately show ?case
    unfolding stop using "0.prems"(1) ass by (simp add: del_all_def)
next
  case (Suc n)
  note D = heap_okD [OF Suc.prems(1)]
  have i: "i < nat (size_h h)" using Suc.hyps(2) by simp
  then have il: "i < length ass" using D(4) by simp
  define as where "as = ass ! i"
  define h1 where "h1 = h\<lparr>table := (table h)[i := None]\<rparr>"
  have sub: "set as \<subseteq> set (concat ass)" unfolding as_def using il by (rule set_nth_subset_concat)
  have "chain (nodes w) (table h ! i) as" unfolding as_def using D(5) [OF i] .
  moreover have "distinct as" unfolding as_def using D(7) il by (rule distinct_concat_nth)
  moreover have "set as \<inter> set fs = {}" using sub D(9) by blast
  ultimately obtain w1 where R: "reset_chain h (table h ! i) w = Some w1"
    "chain (nodes w1) (hash_free_list w1) (rev as @ fs)"
    "ext w1 = del_all h (map (\<lambda>a. data (nodes w a)) as) (ext w)"
    "\<forall>b. hkey (nodes w1 b) = hkey (nodes w b) \<and> data (nodes w1 b) = data (nodes w b)"
    "\<forall>b. b \<notin> set as \<longrightarrow> nextp (nodes w1 b) = nextp (nodes w b)"
    "errno w1 = errno w" "brk w1 = brk w" "avail w1 = avail w"
    "hash_mem_list w1 = hash_mem_list w"
    using reset_chain_ok [of w "table h ! i" as fs h] D(6) by blast
  have ii: "int i < size_h h" using i by linarith
  have step: "reset_buckets (int i) h w = reset_buckets (int (Suc i)) h1 w1"
    by (subst reset_buckets.simps) (use ii R(1) in \<open>simp add: h1_def add.commute\<close>)
  have ok1: "heap_ok h1 w1 (ass[i := []]) (rev as @ fs)"
  proof (rule heap_ok_update [OF Suc.prems(1) i])
    show "chain (nodes w1) (table h1 ! i) []" using i D(3) by (simp add: h1_def)
    show "chain (nodes w1) (hash_free_list w1) (rev as @ fs)" by (rule R(2))
    show "distinct (rev as @ fs)" using \<open>distinct as\<close> D(8) \<open>set as \<inter> set fs = {}\<close> by auto
    show "a \<in> set (ass ! i)" if "a \<in> set [] \<union> set (rev as @ fs)" "a \<in> set (concat ass)" for a
      using that D(9) by (auto simp: as_def simp del: set_concat)
    show "a < brk w1" if "a \<in> set [] \<union> set (rev as @ fs)" for a
      using that D(10) [of a] D(11) [of a] sub by (auto simp: R(7) simp del: set_concat)
    show "nextp (nodes w1 a) = nextp (nodes w a)" if "a \<notin> set (ass ! i)" for a
      using that R(5) by (simp add: as_def)
  qed (simp_all add: h1_def R(7))
  have sz1: "nat (size_h h1) = nat (size_h h)" by (simp add: h1_def)
  have "\<forall>j<Suc i. ass[i := []] ! j = []"
    using Suc.prems(3) il by (auto simp: less_Suc_eq)
  moreover have "n = nat (size_h h1) - Suc i" using Suc.hyps(2) sz1 by simp
  moreover have "Suc i \<le> nat (size_h h1)" using i sz1 by simp
  ultimately obtain h' w' where R2: "reset_buckets (int (Suc i)) h1 w1 = Some (h', w')"
    "heap_ok h' w' (replicate (nat (size_h h1)) []) (rev (concat (drop (Suc i) (ass[i := []]))) @ rev as @ fs)"
    "h' = h1\<lparr>table := replicate (nat (size_h h1)) None\<rparr>"
    "ext w' = del_all h1 (map (\<lambda>a. data (nodes w1 a)) (concat (drop (Suc i) (ass[i := []])))) (ext w1)"
    "\<forall>b. hkey (nodes w' b) = hkey (nodes w1 b) \<and> data (nodes w' b) = data (nodes w1 b)"
    "errno w' = errno w1" "brk w' = brk w1" "avail w' = avail w1"
    "hash_mem_list w' = hash_mem_list w1"
    using Suc.hyps(1) [of h1 "Suc i" w1 "ass[i := []]" "rev as @ fs"] ok1 by blast
  have dr: "drop (Suc i) (ass[i := []]) = drop (Suc i) ass" by simp
  have cc: "concat (drop i ass) = as @ concat (drop (Suc i) ass)"
    unfolding as_def using il by (metis Cons_nth_drop_Suc concat.simps(2))
  have d1: "map (\<lambda>a. data (nodes w1 a)) xs = map (\<lambda>a. data (nodes w a)) xs" for xs
    by (rule map_cong) (simp_all add: R(4))
  have dh: "del_all h1 = del_all h" by (simp add: del_all_def [abs_def] h1_def)
  have e: "ext w' = del_all h (map (\<lambda>a. data (nodes w a)) (concat (drop i ass))) (ext w)"
    unfolding R2(4) dr d1 dh R(3) cc by (simp add: del_all_def)
  have hh: "h' = h\<lparr>table := replicate (nat (size_h h)) None\<rparr>"
    unfolding R2(3) by (simp add: h1_def)
  have ok': "heap_ok h' w' (replicate (nat (size_h h)) []) (rev (concat (drop i ass)) @ fs)"
    using R2(2) unfolding dr sz1 cc by simp
  have pay: "\<forall>b. hkey (nodes w' b) = hkey (nodes w b) \<and> data (nodes w' b) = data (nodes w b)"
    using R2(5) R(4) by simp
  show ?case
    unfolding step
    by (intro exI [of _ h'] exI [of _ w'] conjI)
      (rule R2(1) ok' hh e pay | simp add: R R2)+
qed

lemma visit_length: "visit argf arg delf xs e = (rs, e') \<Longrightarrow> length rs = length xs"
  by (induction xs arbitrary: e rs) (auto simp: Let_def split: prod.splits)

lemma removed_simps [simp]:
  "removed [] rs = []" "removed as [] = []"
  "removed (a # as) (r # rs) = (if 0 < r then a # removed as rs else removed as rs)"
  by (simp_all add: removed_def)

lemma kept_simps [simp]:
  "kept [] rs = []" "kept as [] = []"
  "kept (a # as) (r # rs) = (if 0 < r then kept as rs else a # kept as rs)"
  by (simp_all add: kept_def)

lemma delete_if_chain_ok:
  assumes "chain (nodes w) (deref (table h) (nodes w) pp) as"
    and "distinct as" and "set as \<inter> set fs = {}"
    and "chain (nodes w) (hash_free_list w) fs"
    and "case pp of Bucket i \<Rightarrow> i < length (table h) | NextOf q \<Rightarrow> q \<notin> set as \<union> set fs"
    and "visit argf arg (del_f h) (map (payload w) as) (ext w) = (rs, e')"
  shows "\<exists>h' w'. delete_if_chain argf arg pp (h, w, n) = Some (h', w', n + int (length (removed as rs))) \<and>
     chain (nodes w') (deref (table h') (nodes w') pp) (kept as rs) \<and>
     chain (nodes w') (hash_free_list w') (rev (removed as rs) @ fs) \<and>
     ext w' = e' \<and> count h' = count h - int (length (removed as rs)) \<and>
     (\<forall>b. payload w' b = payload w b) \<and>
     (\<forall>b. b \<notin> set as \<and> NextOf b \<noteq> pp \<longrightarrow> nextp (nodes w' b) = nextp (nodes w b)) \<and>
     length (table h') = length (table h) \<and>
     (\<forall>j. Bucket j \<noteq> pp \<longrightarrow> table h' ! j = table h ! j) \<and>
     size_h h' = size_h h \<and> cmp_f h' = cmp_f h \<and> del_f h' = del_f h \<and> key_f h' = key_f h \<and>
     errno w' = errno w \<and> brk w' = brk w \<and> avail w' = avail w \<and>
     hash_mem_list w' = hash_mem_list w"
  using assms
proof (induction as arbitrary: pp h w n fs rs e')
  case Nil
  then have "deref (table h) (nodes w) pp = None" "rs = []" "e' = ext w" by auto
  then show ?case using Nil.prems(4) by (subst delete_if_chain.simps) simp
next
  case (Cons a as)
  have dr: "deref (table h) (nodes w) pp = Some a" and ch: "chain (nodes w) (nextp (nodes w a)) as"
    using Cons.prems(1) by simp_all
  have a: "a \<notin> set as" "a \<notin> set fs" "distinct as" "set as \<inter> set fs = {}"
    using Cons.prems(2,3) by auto
  obtain r e1 where r: "argf (data (nodes w a)) (hkey (nodes w a)) arg (ext w) = (r, e1)"
    by (cases "argf (data (nodes w a)) (hkey (nodes w a)) arg (ext w)")
  define e2 where "e2 = (if r > 0 then (case del_f h of None \<Rightarrow> e1 | Some f \<Rightarrow> f (data (nodes w a)) e1) else e1)"
  have vv: "visit argf arg (del_f h) (map (payload w) (a # as)) (ext w) =
      (case visit argf arg (del_f h) (map (payload w) as) e2 of (rs', e'') \<Rightarrow> (r # rs', e''))"
    using r by (simp add: payload_def [of w a] e2_def Let_def)
  obtain rs' where v': "visit argf arg (del_f h) (map (payload w) as) e2 = (rs', e')" and rs: "rs = r # rs'"
    using Cons.prems(6) unfolding vv
    by (cases "visit argf arg (del_f h) (map (payload w) as) e2") auto
  show ?case
  proof (cases "r > 0")
    case False
    define wa where "wa = w\<lparr>ext := e1\<rparr>"
    have ma: "nodes wa = nodes w" "hash_free_list wa = hash_free_list w" "ext wa = e1"
      "errno wa = errno w" "brk wa = brk w" "avail wa = avail w" "hash_mem_list wa = hash_mem_list w"
      "payload wa = payload w"
      by (simp_all add: wa_def payload_def [abs_def])
    have step: "delete_if_chain argf arg pp (h, w, n) = delete_if_chain argf arg (NextOf a) (h, wa, n)"
      by (subst delete_if_chain.simps) (use dr r False in \<open>simp add: wa_def\<close>)
    have e2: "e2 = e1" using False by (simp add: e2_def)
    have i1: "chain (nodes wa) (deref (table h) (nodes wa) (NextOf a)) as" using ch by (simp add: ma)
    have i2: "chain (nodes wa) (hash_free_list wa) fs" using Cons.prems(4) by (simp add: ma)
    have i3: "case NextOf a of Bucket i \<Rightarrow> i < length (table h) | NextOf q \<Rightarrow> q \<notin> set as \<union> set fs"
      using a by simp
    have i4: "visit argf arg (del_f h) (map (payload wa) as) (ext wa) = (rs', e')"
      using v' by (simp add: ma e2)
    obtain h' w' where R:
      "delete_if_chain argf arg (NextOf a) (h, wa, n) = Some (h', w', n + int (length (removed as rs')))"
      "chain (nodes w') (deref (table h') (nodes w') (NextOf a)) (kept as rs')"
      "chain (nodes w') (hash_free_list w') (rev (removed as rs') @ fs)"
      "ext w' = e'" "count h' = count h - int (length (removed as rs'))"
      "\<forall>b. payload w' b = payload wa b"
      "\<forall>b. b \<notin> set as \<and> NextOf b \<noteq> NextOf a \<longrightarrow> nextp (nodes w' b) = nextp (nodes wa b)"
      "length (table h') = length (table h)"
      "\<forall>j. Bucket j \<noteq> NextOf a \<longrightarrow> table h' ! j = table h ! j"
      "size_h h' = size_h h" "cmp_f h' = cmp_f h" "del_f h' = del_f h" "key_f h' = key_f h"
      "errno w' = errno wa" "brk w' = brk wa" "avail w' = avail wa"
      "hash_mem_list w' = hash_mem_list wa"
      using Cons.IH [OF i1 a(3) a(4) i2 i3 i4, of n] by blast
    have dr': "deref (table h') (nodes w') pp = Some a"
    proof (cases pp)
      case (Bucket i)
      then show ?thesis using dr R(9) by simp
    next
      case (NextOf q)
      then have "q \<notin> set as" "q \<noteq> a" using Cons.prems(5) by auto
      then have "nextp (nodes w' q) = nextp (nodes w q)" using R(7) by (simp add: ma)
      then show ?thesis using dr NextOf by simp
    qed
    have c1: "chain (nodes w') (deref (table h') (nodes w') pp) (kept (a # as) rs)"
      using R(2) dr' False by (simp add: rs)
    have c2: "chain (nodes w') (hash_free_list w') (rev (removed (a # as) rs) @ fs)"
      using R(3) False by (simp add: rs)
    have n: "n + int (length (removed as rs')) = n + int (length (removed (a # as) rs))"
      "count h - int (length (removed as rs')) = count h - int (length (removed (a # as) rs))"
      using False by (simp_all add: rs)
    have fr: "\<forall>b. b \<notin> set (a # as) \<and> NextOf b \<noteq> pp \<longrightarrow> nextp (nodes w' b) = nextp (nodes w b)"
      using R(7) by (simp add: ma)
    have pay: "\<forall>b. payload w' b = payload w b" using R(6) by (simp add: ma)
    have tb: "\<forall>j. Bucket j \<noteq> pp \<longrightarrow> table h' ! j = table h ! j" using R(9) by simp
    have fin: "errno w' = errno w" "brk w' = brk w" "avail w' = avail w"
      "hash_mem_list w' = hash_mem_list w"
      using R(14-17) by (simp_all add: ma)
    show ?thesis
      unfolding step
      by (intro exI [of _ h'] exI [of _ w'] conjI)
        (rule R(1) [unfolded n] c1 c2 R(4) R(5) [unfolded n] pay fr tb R(8) R(10-13) fin)+
  next
    case True
    define wb where "wb = call_del_f h (data (nodes w a)) (w\<lparr>ext := e1\<rparr>)"
    have mb: "nodes wb = nodes w" "hash_free_list wb = hash_free_list w" "ext wb = e2"
      "errno wb = errno w" "brk wb = brk w" "avail wb = avail w" "hash_mem_list wb = hash_mem_list w"
      using True by (simp_all add: wb_def call_del_f_def e2_def split: option.split)
    obtain h1 w1 where as: "assign pp (nextp (nodes w a)) h wb = (h1, w1)"
      by (cases "assign pp (nextp (nodes w a)) h wb")
    define w2 where "w2 = hash_node_free a w1"
    define h2 where "h2 = h1\<lparr>count := count h1 - 1\<rparr>"
    have step: "delete_if_chain argf arg pp (h, w, n) = delete_if_chain argf arg pp (h2, w2, n + 1)"
      by (subst delete_if_chain.simps)
        (use dr r True as in \<open>simp add: wb_def [symmetric] mb h2_def w2_def Let_def\<close>)
    have q: "q \<notin> set as" "q \<noteq> a" "q \<notin> set fs" if "pp = NextOf q" for q
      using Cons.prems(5) that by auto
    have hw: "length (table h1) = length (table h) \<and> (\<forall>j. Bucket j \<noteq> pp \<longrightarrow> table h1 ! j = table h ! j) \<and>
      size_h h1 = size_h h \<and> cmp_f h1 = cmp_f h \<and> del_f h1 = del_f h \<and> key_f h1 = key_f h \<and>
      count h1 = count h \<and> hash_free_list w1 = hash_free_list w \<and> ext w1 = e2 \<and>
      errno w1 = errno w \<and> brk w1 = brk w \<and> avail w1 = avail w \<and> hash_mem_list w1 = hash_mem_list w \<and>
      (\<forall>b. payload w1 b = payload w b) \<and>
      (\<forall>b. NextOf b \<noteq> pp \<longrightarrow> nextp (nodes w1 b) = nextp (nodes w b)) \<and>
      deref (table h1) (nodes w1) pp = nextp (nodes w a)"
    proof (cases pp)
      case (Bucket i)
      then have "h1 = h\<lparr>table := (table h)[i := nextp (nodes w a)]\<rparr>" "w1 = wb" "i < length (table h)"
        using as Cons.prems(5) by auto
      then show ?thesis using Bucket by (simp add: mb payload_def)
    next
      case (NextOf q)
      then have "h1 = h" "w1 = wb\<lparr>nodes := (nodes wb)(q := (nodes wb q)\<lparr>nextp := nextp (nodes w a)\<rparr>)\<rparr>"
        using as by auto
      then show ?thesis using NextOf by (simp add: mb payload_def)
    qed
    have h1: "length (table h1) = length (table h)" "\<forall>j. Bucket j \<noteq> pp \<longrightarrow> table h1 ! j = table h ! j"
      "size_h h1 = size_h h" "cmp_f h1 = cmp_f h" "del_f h1 = del_f h" "key_f h1 = key_f h"
      "count h1 = count h"
      using hw by blast+
    have w1: "hash_free_list w1 = hash_free_list w" "ext w1 = e2"
      "errno w1 = errno w" "brk w1 = brk w" "avail w1 = avail w" "hash_mem_list w1 = hash_mem_list w"
      "\<forall>b. payload w1 b = payload w b"
      "\<forall>b. NextOf b \<noteq> pp \<longrightarrow> nextp (nodes w1 b) = nextp (nodes w b)"
      "deref (table h1) (nodes w1) pp = nextp (nodes w a)"
      using hw by blast+
    have m2: "nodes w2 = (nodes w1)(a := (nodes w1 a)\<lparr>nextp := hash_free_list w\<rparr>)"
      "hash_free_list w2 = Some a" "ext w2 = e2"
      "errno w2 = errno w" "brk w2 = brk w" "avail w2 = avail w" "hash_mem_list w2 = hash_mem_list w"
      by (simp_all add: w2_def hash_node_free_def w1)
    have pay2: "payload w2 b = payload w b" for b
      using w1(7) by (simp add: payload_def m2)
    have nx2: "nextp (nodes w2 b) = nextp (nodes w b)" if "b \<noteq> a" "NextOf b \<noteq> pp" for b
      using that w1(8) by (simp add: m2)
    have npa: "NextOf a \<noteq> pp" using Cons.prems(5) by (cases pp) auto
    have dr2: "deref (table h2) (nodes w2) pp = nextp (nodes w a)"
      using w1(9) npa by (cases pp) (simp_all add: h2_def m2)
    have "chain (nodes w2) (nextp (nodes w a)) as = chain (nodes w) (nextp (nodes w a)) as"
    proof (rule chain_cong)
      fix b assume b: "b \<in> set as"
      then have "b \<noteq> a" using a(1) by auto
      moreover have "NextOf b \<noteq> pp" using b q(1) by (cases pp) auto
      ultimately show "nextp (nodes w2 b) = nextp (nodes w b)" by (rule nx2)
    qed
    then have c_as: "chain (nodes w2) (deref (table h2) (nodes w2) pp) as" using ch dr2 by simp
    have "chain (nodes w2) (hash_free_list w) fs = chain (nodes w) (hash_free_list w) fs"
    proof (rule chain_cong)
      fix b assume b: "b \<in> set fs"
      then have "b \<noteq> a" using a(2) by auto
      moreover have "NextOf b \<noteq> pp" using b q(3) by (cases pp) auto
      ultimately show "nextp (nodes w2 b) = nextp (nodes w b)" by (rule nx2)
    qed
    then have c_fs: "chain (nodes w2) (hash_free_list w2) (a # fs)"
      using Cons.prems(4) by (simp add: m2)
    have ppok: "case pp of Bucket i \<Rightarrow> i < length (table h2) | NextOf q \<Rightarrow> q \<notin> set as \<union> set (a # fs)"
      using Cons.prems(5) by (cases pp) (simp_all add: h2_def h1)
    have v2: "visit argf arg (del_f h2) (map (payload w2) as) (ext w2) = (rs', e')"
    proof -
      have eq: "map (payload w2) as = map (payload w) as" by (rule map_cong) (simp_all add: pay2)
      have "del_f h2 = del_f h" "ext w2 = e2" by (simp_all add: h2_def h1 m2)
      then show ?thesis unfolding eq using v' by simp
    qed
    have disj: "set as \<inter> set (a # fs) = {}" using a by auto
    obtain h' w' where R:
      "delete_if_chain argf arg pp (h2, w2, n + 1) = Some (h', w', n + 1 + int (length (removed as rs')))"
      "chain (nodes w') (deref (table h') (nodes w') pp) (kept as rs')"
      "chain (nodes w') (hash_free_list w') (rev (removed as rs') @ a # fs)"
      "ext w' = e'" "count h' = count h2 - int (length (removed as rs'))"
      "\<forall>b. payload w' b = payload w2 b"
      "\<forall>b. b \<notin> set as \<and> NextOf b \<noteq> pp \<longrightarrow> nextp (nodes w' b) = nextp (nodes w2 b)"
      "length (table h') = length (table h2)"
      "\<forall>j. Bucket j \<noteq> pp \<longrightarrow> table h' ! j = table h2 ! j"
      "size_h h' = size_h h2" "cmp_f h' = cmp_f h2" "del_f h' = del_f h2" "key_f h' = key_f h2"
      "errno w' = errno w2" "brk w' = brk w2" "avail w' = avail w2"
      "hash_mem_list w' = hash_mem_list w2"
      using Cons.IH [OF c_as a(3) disj c_fs ppok v2, of "n + 1"] by blast
    have n: "n + 1 + int (length (removed as rs')) = n + int (length (removed (a # as) rs))"
      "count h2 - int (length (removed as rs')) = count h - int (length (removed (a # as) rs))"
      using True by (simp_all add: rs h2_def h1)
    have c1: "chain (nodes w') (deref (table h') (nodes w') pp) (kept (a # as) rs)"
      using R(2) True by (simp add: rs)
    have c2: "chain (nodes w') (hash_free_list w') (rev (removed (a # as) rs) @ fs)"
      using R(3) True by (simp add: rs)
    have fr: "\<forall>b. b \<notin> set (a # as) \<and> NextOf b \<noteq> pp \<longrightarrow> nextp (nodes w' b) = nextp (nodes w b)"
      using R(7) nx2 by simp
    have pay: "\<forall>b. payload w' b = payload w b" using R(6) pay2 by simp
    have tb: "\<forall>j. Bucket j \<noteq> pp \<longrightarrow> table h' ! j = table h ! j"
      using R(9) h1(2) by (simp add: h2_def)
    have fin: "errno w' = errno w" "brk w' = brk w" "avail w' = avail w"
      "hash_mem_list w' = hash_mem_list w" "length (table h') = length (table h)"
      "size_h h' = size_h h" "cmp_f h' = cmp_f h" "del_f h' = del_f h" "key_f h' = key_f h" 
      using R(8,10-17) by (simp_all add: m2 h2_def h1)
    show ?thesis
      unfolding step
      by (intro exI [of _ h'] exI [of _ w'] conjI)
        (rule R(1) [unfolded n] c1 c2 R(4) R(5) [unfolded n] pay fr tb fin)+
  qed
qed

lemma visit_append:
  "visit argf arg delf (xs @ ys) e =
     (case visit argf arg delf xs e of
        (rs1, e1) \<Rightarrow> (case visit argf arg delf ys e1 of (rs2, e2) \<Rightarrow> (rs1 @ rs2, e2)))"
  by (induction xs arbitrary: e) (auto simp: Let_def split: prod.splits)

lemma removed_subset: "set (removed as rs) \<subseteq> set as"
  unfolding removed_def by (auto dest: set_zip_leftD)

lemma kept_subset: "set (kept as rs) \<subseteq> set as"
  unfolding kept_def by (auto dest: set_zip_leftD)

lemma removed_append:
  "length rs1 = length as1 \<Longrightarrow>
   removed (as1 @ as2) (rs1 @ rs2) = removed as1 rs1 @ removed as2 rs2"
  by (simp add: removed_def)

lemma kept_removed_distinct:
  assumes "distinct as"
  shows "distinct (kept as rs)" "distinct (removed as rs)"
    "set (kept as rs) \<inter> set (removed as rs) = {}"
proof -
  have "distinct (kept as rs) \<and> distinct (removed as rs) \<and> set (kept as rs) \<inter> set (removed as rs) = {}"
    using assms
  proof (induction as arbitrary: rs)
    case Nil
    then show ?case by simp
  next
    case (Cons a as)
    show ?case
    proof (cases rs)
      case Nil
      then show ?thesis by simp
    next
      case (Cons r rs')
      have "a \<notin> set (kept as rs')" "a \<notin> set (removed as rs')"
        using Cons.prems kept_subset [of as rs'] removed_subset [of as rs'] by auto
      then show ?thesis using Cons.IH [of rs'] Cons.prems Cons by auto
    qed
  qed
  then show "distinct (kept as rs)" "distinct (removed as rs)"
    "set (kept as rs) \<inter> set (removed as rs) = {}" by simp_all
qed

lemma kept_removed_length:
  "length rs = length as \<Longrightarrow> length (kept as rs) + length (removed as rs) = length as"
proof (induction as arbitrary: rs)
  case Nil
  then show ?case by simp
next
  case (Cons a as)
  then obtain r rs' where "rs = r # rs'" "length rs' = length as" by (cases rs) auto
  then show ?case using Cons.IH [of rs'] by simp
qed

lemma kept_filter:
  "distinct as \<Longrightarrow> length rs = length as \<Longrightarrow>
   kept as rs = filter (\<lambda>a. a \<notin> set (removed as rs)) as"
proof (induction as arbitrary: rs)
  case Nil
  then show ?case by simp
next
  case (Cons a as)
  then obtain r rs' where rs: "rs = r # rs'" "length rs' = length as" by (cases rs) auto
  have IH: "kept as rs' = filter (\<lambda>a. a \<notin> set (removed as rs')) as"
    using Cons.IH [of rs'] Cons.prems rs by simp
  have a: "a \<notin> set (removed as rs')"
    using Cons.prems(1) removed_subset [of as rs'] by auto
  have f: "filter (\<lambda>b. b \<noteq> a \<and> b \<notin> set (removed as rs')) as = filter (\<lambda>b. b \<notin> set (removed as rs')) as"
    using Cons.prems(1) by (intro filter_cong) auto
  show ?case unfolding rs using a f by (simp add: IH)
qed

lemma delete_if_buckets_ok:
  assumes "heap_ok h w ass fs" "i \<le> nat (size_h h)"
    and "visit argf arg (del_f h) (map (payload w) (concat (drop i ass))) (ext w) = (rs, e')"
  shows "\<exists>h' w'. delete_if_buckets argf arg (int i) (h, w, n) =
       Some (h', w', n + int (length (removed (concat (drop i ass)) rs))) \<and>
     heap_ok h' w'
       (take i ass @ map (filter (\<lambda>a. a \<notin> set (removed (concat (drop i ass)) rs))) (drop i ass))
       (rev (removed (concat (drop i ass)) rs) @ fs) \<and>
     ext w' = e' \<and> count h' = count h - int (length (removed (concat (drop i ass)) rs)) \<and>
     (\<forall>b. payload w' b = payload w b) \<and>
     size_h h' = size_h h \<and> cmp_f h' = cmp_f h \<and> del_f h' = del_f h \<and> key_f h' = key_f h \<and>
     errno w' = errno w \<and> brk w' = brk w \<and> avail w' = avail w \<and>
     hash_mem_list w' = hash_mem_list w"
  using assms
proof (induction "nat (size_h h) - i" arbitrary: i h w ass fs rs n)
  case 0
  note D = heap_okD [OF "0.prems"(1)]
  have i: "i = nat (size_h h)" using 0 by simp
  have stop: "delete_if_buckets argf arg (int i) (h, w, n) = Some (h, w, n)"
    by (subst delete_if_buckets.simps) (use i D(1) in simp)
  have dr: "drop i ass = []" "take i ass = ass" using D(4) i by simp_all
  have "rs = []" "e' = ext w" using "0.prems"(3) dr by simp_all
  then show ?case unfolding stop dr using "0.prems"(1) by simp
next
  case (Suc m)
  note D = heap_okD [OF Suc.prems(1)]
  have i: "i < nat (size_h h)" using Suc.hyps(2) by simp
  then have il: "i < length ass" and it: "i < length (table h)" using D(3,4) by simp_all
  have ii: "int i < size_h h" using i by linarith
  define as where "as = ass ! i"
  define rest where "rest = concat (drop (Suc i) ass)"
  have cc: "concat (drop i ass) = as @ rest"
    unfolding as_def rest_def using il by (metis Cons_nth_drop_Suc concat.simps(2))
  have dd: "drop i ass = as # drop (Suc i) ass"
    unfolding as_def using il by (simp add: Cons_nth_drop_Suc)
  obtain rs1 e1 where v1: "visit argf arg (del_f h) (map (payload w) as) (ext w) = (rs1, e1)"
    by (cases "visit argf arg (del_f h) (map (payload w) as) (ext w)")
  obtain rs2 where v2: "visit argf arg (del_f h) (map (payload w) rest) e1 = (rs2, e')"
    and rs: "rs = rs1 @ rs2"
    using Suc.prems(3) unfolding cc map_append visit_append v1
    by (cases "visit argf arg (del_f h) (map (payload w) rest) e1") auto
  have l1: "length rs1 = length as" using visit_length [OF v1] by simp
  define rm1 where "rm1 = removed as rs1"
  define kp1 where "kp1 = kept as rs1"
  define rm2 where "rm2 = removed rest rs2"
  have rm: "removed (concat (drop i ass)) rs = rm1 @ rm2"
    unfolding cc rs rm1_def rm2_def using l1 by (rule removed_append)
  have sub: "set as \<subseteq> set (concat ass)" unfolding as_def using il by (rule set_nth_subset_concat)
  have das: "distinct as" unfolding as_def using D(7) il by (rule distinct_concat_nth)
  note K = kept_removed_distinct [OF das, of rs1, folded kp1_def rm1_def]
  have kf: "kp1 = filter (\<lambda>a. a \<notin> set rm1) as"
    unfolding kp1_def rm1_def using das l1 by (rule kept_filter)
  have ksub: "set kp1 \<subseteq> set as" "set rm1 \<subseteq> set as"
    unfolding kp1_def rm1_def by (rule kept_subset removed_subset)+
  have asfs: "set as \<inter> set fs = {}" using sub D(9) by blast
  have c0: "chain (nodes w) (deref (table h) (nodes w) (Bucket i)) as"
    unfolding as_def using D(5) [OF i] by simp
  have ppok: "case Bucket i of Bucket i \<Rightarrow> i < length (table h) | NextOf q \<Rightarrow> q \<notin> set as \<union> set fs"
    using it by simp
  obtain h1 w1 where R:
    "delete_if_chain argf arg (Bucket i) (h, w, n) = Some (h1, w1, n + int (length rm1))"
    "chain (nodes w1) (deref (table h1) (nodes w1) (Bucket i)) kp1"
    "chain (nodes w1) (hash_free_list w1) (rev rm1 @ fs)"
    "ext w1 = e1" "count h1 = count h - int (length rm1)"
    "\<forall>b. payload w1 b = payload w b"
    "\<forall>b. b \<notin> set as \<and> NextOf b \<noteq> Bucket i \<longrightarrow> nextp (nodes w1 b) = nextp (nodes w b)"
    "length (table h1) = length (table h)"
    "\<forall>j. Bucket j \<noteq> Bucket i \<longrightarrow> table h1 ! j = table h ! j"
    "size_h h1 = size_h h" "cmp_f h1 = cmp_f h" "del_f h1 = del_f h" "key_f h1 = key_f h"
    "errno w1 = errno w" "brk w1 = brk w" "avail w1 = avail w"
    "hash_mem_list w1 = hash_mem_list w"
    using delete_if_chain_ok [OF c0 das asfs D(6) ppok v1, of n]
    unfolding rm1_def [symmetric] kp1_def [symmetric] by blast
  have step: "delete_if_buckets argf arg (int i) (h, w, n) =
      delete_if_buckets argf arg (int (Suc i)) (h1, w1, n + int (length rm1))"
    by (subst delete_if_buckets.simps) (use ii R(1) in \<open>simp add: add.commute\<close>)
  have ok1: "heap_ok h1 w1 (ass[i := kp1]) (rev rm1 @ fs)"
  proof (rule heap_ok_update [OF Suc.prems(1) i])
    show "chain (nodes w1) (table h1 ! i) kp1" using R(2) by simp
    show "chain (nodes w1) (hash_free_list w1) (rev rm1 @ fs)" by (rule R(3))
    show "distinct kp1" using K by simp
    show "distinct (rev rm1 @ fs)" using K D(8) ksub asfs by auto
    show "set kp1 \<inter> set (rev rm1 @ fs) = {}" using K ksub asfs by auto
    show "a \<in> set (ass ! i)" if "a \<in> set kp1 \<union> set (rev rm1 @ fs)" "a \<in> set (concat ass)" for a
      using that ksub D(9) by (auto simp: as_def simp del: set_concat)
    show "a < brk w1" if mem: "a \<in> set kp1 \<union> set (rev rm1 @ fs)" for a
    proof -
      consider "a \<in> set as" | "a \<in> set fs" using mem ksub by auto
      then show ?thesis
      proof cases
        case 1
        then have "a \<in> set (concat ass)" using sub by blast
        then show ?thesis using D(10) by (simp add: R(15))
      qed (use D(11) R(15) in simp)
    qed
    show "nextp (nodes w1 a) = nextp (nodes w a)" if "a \<notin> set (ass ! i)" for a
      using that R(7) by (simp add: as_def)
    show "table h1 ! j = table h ! j" if "j \<noteq> i" for j using that R(9) by simp
  qed (simp_all add: R)
  have sz1: "nat (size_h h1) = nat (size_h h)" by (simp add: R)
  have dr1: "drop (Suc i) (ass[i := kp1]) = drop (Suc i) ass" by simp
  have v2': "visit argf arg (del_f h1) (map (payload w1) (concat (drop (Suc i) (ass[i := kp1])))) (ext w1) = (rs2, e')"
  proof -
    have eq: "map (payload w1) rest = map (payload w) rest" by (rule map_cong) (simp_all add: R(6))
    show ?thesis unfolding dr1 rest_def [symmetric] R(4) R(12) eq by (rule v2)
  qed
  have m: "m = nat (size_h h1) - Suc i" using Suc.hyps(2) sz1 by simp
  have si: "Suc i \<le> nat (size_h h1)" using i sz1 by simp
  obtain h' w' where R2:
    "delete_if_buckets argf arg (int (Suc i)) (h1, w1, n + int (length rm1)) =
       Some (h', w', n + int (length rm1) + int (length rm2))"
    "heap_ok h' w' (take (Suc i) (ass[i := kp1]) @ map (filter (\<lambda>a. a \<notin> set rm2)) (drop (Suc i) ass))
       (rev rm2 @ rev rm1 @ fs)"
    "ext w' = e'" "count h' = count h1 - int (length rm2)"
    "\<forall>b. payload w' b = payload w1 b"
    "size_h h' = size_h h1" "cmp_f h' = cmp_f h1" "del_f h' = del_f h1" "key_f h' = key_f h1"
    "errno w' = errno w1" "brk w' = brk w1" "avail w' = avail w1"
    "hash_mem_list w' = hash_mem_list w1"
    using Suc.hyps(1) [OF m ok1 si v2', of "n + int (length rm1)"]
    unfolding dr1 rest_def [symmetric] rm2_def [symmetric] by blast
  have rm2sub: "set rm2 \<subseteq> set rest" unfolding rm2_def by (rule removed_subset)
  have dall: "distinct (concat (take i ass) @ as @ rest)"
    using D(7) concat_nth_split [OF il] by (simp add: as_def rest_def)
  have as_rest: "set as \<inter> set rest = {}" using dall by auto
  have f_as: "filter (\<lambda>a. a \<notin> set (rm1 @ rm2)) as = kp1"
  proof -
    have "filter (\<lambda>a. a \<notin> set (rm1 @ rm2)) as = filter (\<lambda>a. a \<notin> set rm1) as"
      using rm2sub as_rest by (intro filter_cong) auto
    then show ?thesis using kf by simp
  qed
  have f_bs: "map (filter (\<lambda>a. a \<notin> set (rm1 @ rm2))) (drop (Suc i) ass) =
      map (filter (\<lambda>a. a \<notin> set rm2)) (drop (Suc i) ass)"
  proof (rule map_cong [OF refl], rule filter_cong [OF refl])
    fix bs a assume "bs \<in> set (drop (Suc i) ass)" "a \<in> set bs"
    then have "a \<in> set rest" by (auto simp: rest_def)
    then have "a \<notin> set rm1" using ksub(2) as_rest by auto
    then show "(a \<notin> set (rm1 @ rm2)) = (a \<notin> set rm2)" by simp
  qed
  have tk: "take (Suc i) (ass[i := kp1]) = take i ass @ [kp1]"
    using il by (simp add: take_Suc_conv_app_nth)
  have lists: "take i ass @ map (filter (\<lambda>a. a \<notin> set (rm1 @ rm2))) (drop i ass) =
      take (Suc i) (ass[i := kp1]) @ map (filter (\<lambda>a. a \<notin> set rm2)) (drop (Suc i) ass)"
    unfolding tk dd using f_as f_bs by simp
  have ok': "heap_ok h' w'
       (take i ass @ map (filter (\<lambda>a. a \<notin> set (removed (concat (drop i ass)) rs))) (drop i ass))
       (rev (removed (concat (drop i ass)) rs) @ fs)"
    unfolding rm lists using R2(2) by simp
  have res: "delete_if_buckets argf arg (int i) (h, w, n) =
       Some (h', w', n + int (length (removed (concat (drop i ass)) rs)))"
    unfolding step R2(1) rm by simp
  have fin: "count h' = count h - int (length (removed (concat (drop i ass)) rs))"
    "\<forall>b. payload w' b = payload w b"
    "size_h h' = size_h h" "cmp_f h' = cmp_f h" "del_f h' = del_f h" "key_f h' = key_f h"
    "errno w' = errno w" "brk w' = brk w" "avail w' = avail w" "hash_mem_list w' = hash_mem_list w"
    unfolding rm using R2(4-13) R(5,6,10-17) by simp_all
  show ?case
    by (intro exI [of _ h'] exI [of _ w'] conjI) (rule res ok' R2(3) fin)+
qed

subsection \<open>Creation, reset and delete_if on tables\<close>

lemma table_inv_empty:
  assumes "heap_ok h w (replicate n []) fs" "count h = 0"
  shows "table_inv h w (replicate n []) fs"
proof -
  have "inv_live w (replicate n [])" by (simp add: inv_live_def)
  moreover have "inv_placed h w (replicate n [])" unfolding inv_placed_iff by simp
  moreover have "inv_count h (replicate n [])" using assms(2) by (simp add: inv_count_def)
  moreover have "inv_nodup h w (replicate n [])" "inv_ascending h w (replicate n [])"
    by (simp_all add: inv_nodup_def inv_ascending_def list_all_iff keys_of_def)
  ultimately show ?thesis using assms(1) by (simp add: table_inv_def)
qed

lemma table_inv_errno: "table_inv h (w\<lparr>errno := e\<rparr>) ass fs = table_inv h w ass fs"
  by (simp add: table_inv_def heap_ok_def inv_live_def inv_placed_def inv_nodup_def
      inv_ascending_def keys_of_def)

lemma hash_create_ok:
  assumes pool: "pool_ok w fs" and sz: "sz < 2 ^ 31"
    and cr: "hash_create sz keyf cmpf delf w = (Some h, w')"
  shows "table_inv h w' (replicate (nat (size_h h)) []) fs \<and> count h = 0 \<and>
    size_h h = (if sz \<le> 0 then HASH_DEF_SIZE else sz) \<and>
    table h = replicate (nat (size_h h)) None \<and>
    Some (cmp_f h) = cmpf \<and> Some (key_f h) = keyf \<and> del_f h = delf \<and>
    nodes w' = nodes w \<and> hash_free_list w' = hash_free_list w \<and> ext w' = ext w"
proof -
  obtain c k where ck: "cmpf = Some c" "keyf = Some k"
    using cr by (auto simp: hash_create_def split: option.splits)
  define n where "n = (if sz \<le> 0 then HASH_DEF_SIZE else sz)"
  have n: "0 < n" "n < 2 ^ 31" using sz by (auto simp: n_def HASH_DEF_SIZE_def)
  have big: "sizeof_hash \<le> avail w" "nat n * sizeof_ptr \<le> avail w - sizeof_hash"
    using cr unfolding ck hash_create_def n_def [symmetric]
    by (auto simp: malloc_def calloc_def Let_def split: if_splits)
  have h: "h = \<lparr>count = 0, size_h = n, table = replicate (nat n) None, cmp_f = c, del_f = delf, key_f = k\<rparr>"
    and w': "w' = w\<lparr>brk := brk w + sizeof_hash + nat n * sizeof_ptr,
                    avail := avail w - sizeof_hash - nat n * sizeof_ptr\<rparr>"
    using cr big unfolding ck hash_create_def n_def [symmetric]
    by (auto simp: malloc_def calloc_def Let_def ac_simps)
  have "heap_ok h w' (replicate (nat n) []) fs"
    using pool n by (auto simp: heap_ok_def pool_ok_def h w' list_all2_conv_all_nth list_all_iff)
  then have "table_inv h w' (replicate (nat n) []) fs"
    by (rule table_inv_empty) (simp add: h)
  then show ?thesis using ck by (simp add: h w' n_def)
qed

lemma hash_reset_ok:
  assumes ok: "heap_ok h w ass fs"
  shows "\<exists>w'. hash_reset (Some h) w =
       Some (Some (h\<lparr>table := replicate (nat (size_h h)) None, count := 0\<rparr>), w') \<and>
     table_inv (h\<lparr>table := replicate (nat (size_h h)) None, count := 0\<rparr>) w'
       (replicate (nat (size_h h)) []) (rev (concat ass) @ fs) \<and>
     ext w' = del_all h (map (\<lambda>a. data (nodes w a)) (concat ass)) (ext w) \<and>
     (\<forall>b. hkey (nodes w' b) = hkey (nodes w b) \<and> data (nodes w' b) = data (nodes w b)) \<and>
     errno w' = errno w \<and> brk w' = brk w \<and> avail w' = avail w \<and>
     hash_mem_list w' = hash_mem_list w"
proof -
  let ?h1 = "h\<lparr>table := replicate (nat (size_h h)) None\<rparr>"
  let ?h' = "h\<lparr>table := replicate (nat (size_h h)) None, count := 0\<rparr>"
  obtain w' where R: "reset_buckets (int 0) h w = Some (?h1, w')"
    "heap_ok ?h1 w' (replicate (nat (size_h h)) []) (rev (concat (drop 0 ass)) @ fs)"
    "ext w' = del_all h (map (\<lambda>a. data (nodes w a)) (concat (drop 0 ass))) (ext w)"
    "\<forall>b. hkey (nodes w' b) = hkey (nodes w b) \<and> data (nodes w' b) = data (nodes w b)"
    "errno w' = errno w" "brk w' = brk w" "avail w' = avail w" "hash_mem_list w' = hash_mem_list w"
    using reset_buckets_ok [OF ok, of 0] by auto
  have res: "hash_reset (Some h) w = Some (Some ?h', w')"
    using R(1) by (simp add: hash_reset_def)
  have "heap_ok ?h' w' (replicate (nat (size_h h)) []) (rev (concat ass) @ fs)"
    using R(2) by (simp add: heap_ok_def)
  then have inv: "table_inv ?h' w' (replicate (nat (size_h h)) []) (rev (concat ass) @ fs)"
    by (rule table_inv_empty) simp
  have e: "ext w' = del_all h (map (\<lambda>a. data (nodes w a)) (concat ass)) (ext w)"
    using R(3) by simp
  show ?thesis
    by (intro exI [of _ w'] conjI) (rule res inv e R(4-8))+
qed

lemma removed_all:
  "length rs = length as \<Longrightarrow> \<forall>r\<in>set rs. 0 < r \<Longrightarrow> removed as rs = as"
proof (induction as arbitrary: rs)
  case Nil
  then show ?case by simp
next
  case (Cons a as)
  then obtain r rs' where "rs = r # rs'" "length rs' = length as" by (cases rs) auto
  then show ?case using Cons.IH [of rs'] Cons.prems(2) by simp
qed

lemma hash_delete_if_ok:
  assumes inv: "table_inv h w ass fs" and cmp: "cmp_ok (cmp_f h)"
    and v: "visit argf arg (del_f h) (map (payload w) (concat ass)) (ext w) = (rs, e')"
  shows "\<exists>h' w'. hash_delete_if (Some h) (Some argf) arg w =
       Some (int (length (removed (concat ass) rs)), Some h', w') \<and>
     table_inv h' w' (map (filter (\<lambda>a. a \<notin> set (removed (concat ass) rs))) ass)
       (rev (removed (concat ass) rs) @ fs) \<and>
     ext w' = e' \<and> count h' = count h - int (length (removed (concat ass) rs)) \<and>
     (\<forall>b. payload w' b = payload w b) \<and>
     size_h h' = size_h h \<and> cmp_f h' = cmp_f h \<and> del_f h' = del_f h \<and> key_f h' = key_f h \<and>
     errno w' = errno w \<and> brk w' = brk w \<and> avail w' = avail w \<and>
     hash_mem_list w' = hash_mem_list w"
proof -
  note T = table_invD [OF inv]
  note D = heap_okD [OF T(1)]
  note X = table_inv_ix [OF inv cmp]
  define rm where "rm = removed (concat ass) rs"
  define ass' where "ass' = map (filter (\<lambda>a. a \<notin> set rm)) ass"
  obtain h' w' where R:
    "delete_if_buckets argf arg (int 0) (h, w, 0) = Some (h', w', 0 + int (length rm))"
    "heap_ok h' w' (take 0 ass @ map (filter (\<lambda>a. a \<notin> set rm)) (drop 0 ass)) (rev rm @ fs)"
    "ext w' = e'" "count h' = count h - int (length rm)"
    "\<forall>b. payload w' b = payload w b"
    "size_h h' = size_h h" "cmp_f h' = cmp_f h" "del_f h' = del_f h" "key_f h' = key_f h"
    "errno w' = errno w" "brk w' = brk w" "avail w' = avail w" "hash_mem_list w' = hash_mem_list w"
    using delete_if_buckets_ok [of h w ass fs 0 argf arg rs e' 0] T(1) v
    unfolding rm_def by auto
  have res: "hash_delete_if (Some h) (Some argf) arg w = Some (int (length rm), Some h', w')"
    using R(1) by (simp add: hash_delete_if_def)
  have ok': "heap_ok h' w' ass' (rev rm @ fs)" using R(2) by (simp add: ass'_def)
  have pay: "hkey (nodes w' b) = hkey (nodes w b)" "data (nodes w' b) = data (nodes w b)" for b
    using R(5) by (auto simp: payload_def)
  have lrs: "length rs = length (concat ass)" using visit_length [OF v] by simp
  have "concat ass' = filter (\<lambda>a. a \<notin> set rm) (concat ass)"
    unfolding ass'_def by (simp add: filter_concat)
  also have "\<dots> = kept (concat ass) rs"
    unfolding rm_def using D(7) lrs by (rule kept_filter [symmetric])
  finally have "length (concat ass') + length rm = length (concat ass)"
    unfolding rm_def using kept_removed_length [OF lrs] by simp
  then have cnt: "count h' = int (length (concat ass'))" using R(4) X(1) by simp
  have inv': "table_inv h' w' ass' (rev rm @ fs)"
  proof (rule table_invI)
    show "cmp_ok (cmp_f h')" using cmp R(7) by simp
    show "heap_ok h' w' ass' (rev rm @ fs)" by (rule ok')
    show "count h' = int (length (concat ass'))" by (rule cnt)
    show "strict_chain h' w' (ass' ! i)" if "i < length ass'" for i
    proof -
      have i: "i < length ass" using that by (simp add: ass'_def)
      have "strict_chain h w (filter (\<lambda>a. a \<notin> set rm) (ass ! i))"
        using X(2) [OF i] unfolding strict_chain_def by (rule sorted_wrt_filter)
      moreover have "strict_chain h' w' (filter (\<lambda>a. a \<notin> set rm) (ass ! i)) =
          strict_chain h w (filter (\<lambda>a. a \<notin> set rm) (ass ! i))"
        using R(7) pay(1) by (rule strict_chain_cong)
      ultimately show ?thesis using i by (simp add: ass'_def)
    qed
    show "live w' a \<and> slot_of h' (hkey (nodes w' a)) = i"
      if "i < length ass'" "a \<in> set (ass' ! i)" for i a
    proof -
      have i: "i < length ass" "a \<in> set (ass ! i)" using that by (simp_all add: ass'_def)
      show ?thesis
        using X(3) [OF i] X(4) [OF i] pay slot_of_cong [OF R(9,6)] by (simp add: live_def)
    qed
  qed
  show ?thesis
    unfolding rm_def [symmetric] ass'_def [symmetric]
    by (intro exI [of _ h'] exI [of _ w'] conjI) (rule res inv' R(3-13))+
qed

lemma visit_pure:
  assumes "\<And>d k e. argf d k arg e = (p d k, e)"
  shows "visit argf arg delf xs e =
     (map (\<lambda>(d, k). p d k) xs,
      fold (\<lambda>d e. case delf of None \<Rightarrow> e | Some f \<Rightarrow> f d e)
        (map fst (filter (\<lambda>(d, k). 0 < p d k) xs)) e)"
  by (induction xs arbitrary: e) (auto simp: assms Let_def split: option.split)

lemma removed_map: "removed as (map f as) = filter (\<lambda>a. 0 < f a) as"
  by (induction as) simp_all

lemma table_inv_three: "table_inv h w ass fs \<Longrightarrow> three_invs h w ass"
  by (simp add: table_inv_def three_invs_def)

lemma hash_insert_inv:
  assumes inv: "table_inv h w ass fs" and cmp: "cmp_ok (cmp_f h)"
  shows "\<exists>r h' w' ass' fs'. hash_insert (Some h) key dat w = Some (r, Some h', w') \<and>
           table_inv h' w' ass' fs' \<and> cmp_f h' = cmp_f h \<and>
           count h \<le> count h' \<and> count h' \<le> count h + 1"
proof -
  have same: ?thesis if "hash_insert (Some h) key dat w = Some (None, Some h, w\<lparr>errno := e\<rparr>)" for e
  proof -
    have "table_inv h (w\<lparr>errno := e\<rparr>) ass fs" using inv by (simp only: table_inv_errno)
    with that show ?thesis by (intro exI [of _ None] exI [of _ h] exI [of _ "w\<lparr>errno := e\<rparr>"]
          exI [of _ ass] exI [of _ fs]) simp
  qed
  show ?thesis
  proof (cases "key = None \<or> dat = None")
    case True
    then have "hash_insert (Some h) key dat w = Some (None, Some h, w\<lparr>errno := EINVAL\<rparr>)"
      by (auto simp: hash_insert_def)
    then show ?thesis by (rule same)
  next
    case False
    then obtain k d where kd: "key = Some k" "dat = Some d" by auto
    show ?thesis
    proof (cases "hit h w (Some k) (ass ! slot_of h (Some k))")
      case (Some a)
      show ?thesis using hash_insert_exists [OF inv cmp Some, of d] unfolding kd [symmetric]
        by (rule same)
    next
      case None
      show ?thesis
      proof (cases "fst (hash_node_alloc w)")
        case oom: None
        show ?thesis using hash_insert_oom [OF inv cmp None oom, of d] unfolding kd [symmetric]
          by (rule same)
      next
        case (Some p)
        then have "hash_node_alloc w = (Some p, snd (hash_node_alloc w))" by (metis prod.collapse)
        from table_inv_insert [OF inv cmp None this, of d]
        obtain h' w' ass' where "hash_insert (Some h) key dat w = Some (Some d, Some h', w')"
          "table_inv h' w' ass' (alloc_rest w fs)" "cmp_f h' = cmp_f h" "count h' = count h + 1"
          unfolding kd by blast
        then show ?thesis
          by (intro exI [of _ "Some d"] exI [of _ h'] exI [of _ w'] exI [of _ ass']
              exI [of _ "alloc_rest w fs"]) simp
      qed
    qed
  qed
qed

lemma hash_remove_inv:
  assumes inv: "table_inv h w ass fs" and cmp: "cmp_ok (cmp_f h)"
  shows "\<exists>r h' w' ass' fs'. hash_remove (Some h) key w = Some (r, Some h', w') \<and>
           table_inv h' w' ass' fs' \<and> cmp_f h' = cmp_f h \<and> count h' \<le> count h"
proof -
  have same: ?thesis if "hash_remove (Some h) key w = Some (None, Some h, w\<lparr>errno := e\<rparr>)" for e
  proof -
    have "table_inv h (w\<lparr>errno := e\<rparr>) ass fs" using inv by (simp only: table_inv_errno)
    with that show ?thesis by (intro exI [of _ None] exI [of _ h] exI [of _ "w\<lparr>errno := e\<rparr>"]
          exI [of _ ass] exI [of _ fs]) simp
  qed
  show ?thesis
  proof (cases key)
    case None
    then have "hash_remove (Some h) key w = Some (None, Some h, w\<lparr>errno := EINVAL\<rparr>)"
      by (simp add: hash_remove_def)
    then show ?thesis by (rule same)
  next
    case (Some k)
    show ?thesis
    proof (cases "hit h w (Some k) (ass ! slot_of h (Some k))")
      case None
      show ?thesis using hash_remove_missing [OF inv cmp None] unfolding Some [symmetric]
        by (rule same)
    next
      case hit: (Some a)
      from table_inv_remove [OF inv cmp hit]
      obtain h' w' ass' where "hash_remove (Some h) key w = Some (data (nodes w a), Some h', w')"
        "table_inv h' w' ass' (a # fs)" "cmp_f h' = cmp_f h" "count h' = count h - 1"
        unfolding Some by blast
      then show ?thesis
        by (intro exI [of _ "data (nodes w a)"] exI [of _ h'] exI [of _ w'] exI [of _ ass']
            exI [of _ "a # fs"]) simp
    qed
  qed
qed

lemma hash_delete_if_inv:
  assumes inv: "table_inv h w ass fs" and cmp: "cmp_ok (cmp_f h)"
  shows "\<exists>n h' w' ass' fs'. hash_delete_if (Some h) argf arg w = Some (n, Some h', w') \<and>
           table_inv h' w' ass' fs' \<and> cmp_f h' = cmp_f h \<and> count h' \<le> count h"
proof (cases argf)
  case None
  then have "hash_delete_if (Some h) argf arg w = Some (- 1, Some h, w\<lparr>errno := EINVAL\<rparr>)"
    by (simp add: hash_delete_if_def)
  moreover have "table_inv h (w\<lparr>errno := EINVAL\<rparr>) ass fs" using inv by (simp only: table_inv_errno)
  ultimately show ?thesis
    by (intro exI [of _ "- 1"] exI [of _ h] exI [of _ "w\<lparr>errno := EINVAL\<rparr>"]
        exI [of _ ass] exI [of _ fs]) simp
next
  case (Some f)
  obtain rs e' where "visit f arg (del_f h) (map (payload w) (concat ass)) (ext w) = (rs, e')"
    by (cases "visit f arg (del_f h) (map (payload w) (concat ass)) (ext w)")
  from hash_delete_if_ok [OF inv cmp this]
  obtain h' w' where "hash_delete_if (Some h) argf arg w =
       Some (int (length (removed (concat ass) rs)), Some h', w')"
    "table_inv h' w' (map (filter (\<lambda>a. a \<notin> set (removed (concat ass) rs))) ass)
       (rev (removed (concat ass) rs) @ fs)"
    "cmp_f h' = cmp_f h" "count h' = count h - int (length (removed (concat ass) rs))"
    unfolding Some by blast
  then show ?thesis
    by (intro exI [of _ "int (length (removed (concat ass) rs))"] exI [of _ h'] exI [of _ w']
        exI [of _ "map (filter (\<lambda>a. a \<notin> set (removed (concat ass) rs))) ass"]
        exI [of _ "rev (removed (concat ass) rs) @ fs"]) simp
qed

subsection \<open>The invariants are established and preserved\<close>

text \<open>
  C4. The three invariants (the chain lengths sum to \<open>count\<close>, no two keys of a chain
  compare equal, every chain ascends under the comparison) hold of the table that
  \<^verbatim>\<open>hash_create\<close> returns, and its \<open>count\<close> is a value of the C type \<^verbatim>\<open>int\<close>. In a
  table that satisfies the full invariant, with a \<open>count\<close> that is a value of
  \<^verbatim>\<open>int\<close> and a comparison that is a strict total order, every call of
  \<^verbatim>\<open>hash_remove\<close>, \<^verbatim>\<open>hash_delete_if\<close> and \<^verbatim>\<open>hash_reset\<close> returns, and returns a table
  that satisfies the full invariant and with it the three, whatever the arguments and
  the outcome are, with a \<open>count\<close> that is still a value of \<^verbatim>\<open>int\<close>. The same holds of
  every call of \<^verbatim>\<open>hash_insert\<close> on a table whose \<open>count\<close> is less than \<open>INT_MAX\<close>, so
  that the increment \<^verbatim>\<open>h->count++\<close> does not overflow. (At \<open>count = INT_MAX\<close> the
  increment is undefined in C, and nothing is stated.)
\<close>

theorem invariants_preserved:
  fixes h :: "('k, 'd, 'w) hash" and argf :: "('k, 'd, 'a, 'w) hash_arg_f option"
  shows
  "(pool_ok w0 fs0 \<and> sz < 2 ^ 31 \<and> hash_create sz keyf cmpf delf w0 = (Some h0, w1) \<longrightarrow>
      table_inv h0 w1 (replicate (nat (size_h h0)) []) fs0 \<and>
      three_invs h0 w1 (replicate (nat (size_h h0)) []) \<and> count h0 \<le> INT_MAX) \<and>
   (table_inv h w ass fs \<and> cmp_ok (cmp_f h) \<and> count h \<le> INT_MAX \<longrightarrow>
      three_invs h w ass \<and>
      (count h < INT_MAX \<longrightarrow>
         (\<exists>r h' w' ass' fs'. hash_insert (Some h) key dat w = Some (r, Some h', w') \<and>
            table_inv h' w' ass' fs' \<and> three_invs h' w' ass' \<and> cmp_ok (cmp_f h') \<and>
            count h' \<le> INT_MAX)) \<and>
      (\<exists>r h' w' ass' fs'. hash_remove (Some h) key w = Some (r, Some h', w') \<and>
         table_inv h' w' ass' fs' \<and> three_invs h' w' ass' \<and> cmp_ok (cmp_f h') \<and>
         count h' \<le> INT_MAX) \<and>
      (\<exists>n h' w' ass' fs'. hash_delete_if (Some h) argf arg w = Some (n, Some h', w') \<and>
         table_inv h' w' ass' fs' \<and> three_invs h' w' ass' \<and> cmp_ok (cmp_f h') \<and>
         count h' \<le> INT_MAX) \<and>
      (\<exists>h' w' ass' fs'. hash_reset (Some h) w = Some (Some h', w') \<and>
         table_inv h' w' ass' fs' \<and> three_invs h' w' ass' \<and> cmp_ok (cmp_f h') \<and>
         count h' \<le> INT_MAX))"
proof (intro conjI impI)
  assume "pool_ok w0 fs0 \<and> sz < 2 ^ 31 \<and> hash_create sz keyf cmpf delf w0 = (Some h0, w1)"
  then have c: "table_inv h0 w1 (replicate (nat (size_h h0)) []) fs0" "count h0 = 0"
    using hash_create_ok [of w0 fs0 sz keyf cmpf delf h0 w1] by blast+
  show "table_inv h0 w1 (replicate (nat (size_h h0)) []) fs0" by (rule c(1))
  show "three_invs h0 w1 (replicate (nat (size_h h0)) [])" using c(1) by (rule table_inv_three)
  show "count h0 \<le> INT_MAX" using c(2) by (simp add: INT_MAX_def)
next
  assume a: "table_inv h w ass fs \<and> cmp_ok (cmp_f h) \<and> count h \<le> INT_MAX"
  then have inv: "table_inv h w ass fs" and cmp: "cmp_ok (cmp_f h)"
    and le: "count h \<le> INT_MAX" by simp_all
  show "three_invs h w ass" using inv by (rule table_inv_three)
  show "\<exists>r h' w' ass' fs'. hash_remove (Some h) key w = Some (r, Some h', w') \<and>
         table_inv h' w' ass' fs' \<and> three_invs h' w' ass' \<and> cmp_ok (cmp_f h') \<and>
         count h' \<le> INT_MAX"
  proof -
    obtain r h' w' ass' fs' where R: "hash_remove (Some h) key w = Some (r, Some h', w')"
      "table_inv h' w' ass' fs'" "cmp_f h' = cmp_f h" "count h' \<le> count h"
      using hash_remove_inv [OF inv cmp, of key] by blast
    have "three_invs h' w' ass'" using R(2) by (rule table_inv_three)
    moreover have "cmp_ok (cmp_f h')" using cmp by (simp only: R(3))
    moreover have "count h' \<le> INT_MAX" using R(4) le by simp
    ultimately show ?thesis using R(1,2) by blast
  qed
  show "\<exists>n h' w' ass' fs'. hash_delete_if (Some h) argf arg w = Some (n, Some h', w') \<and>
         table_inv h' w' ass' fs' \<and> three_invs h' w' ass' \<and> cmp_ok (cmp_f h') \<and>
         count h' \<le> INT_MAX"
  proof -
    obtain n h' w' ass' fs' where R: "hash_delete_if (Some h) argf arg w = Some (n, Some h', w')"
      "table_inv h' w' ass' fs'" "cmp_f h' = cmp_f h" "count h' \<le> count h"
      using hash_delete_if_inv [OF inv cmp, of argf arg] by blast
    have "three_invs h' w' ass'" using R(2) by (rule table_inv_three)
    moreover have "cmp_ok (cmp_f h')" using cmp by (simp only: R(3))
    moreover have "count h' \<le> INT_MAX" using R(4) le by simp
    ultimately show ?thesis using R(1,2) by blast
  qed
  show "\<exists>h' w' ass' fs'. hash_reset (Some h) w = Some (Some h', w') \<and>
         table_inv h' w' ass' fs' \<and> three_invs h' w' ass' \<and> cmp_ok (cmp_f h') \<and>
         count h' \<le> INT_MAX"
  proof -
    let ?h' = "h\<lparr>table := replicate (nat (size_h h)) None, count := 0\<rparr>"
    obtain w' where R: "hash_reset (Some h) w = Some (Some ?h', w')"
      "table_inv ?h' w' (replicate (nat (size_h h)) []) (rev (concat ass) @ fs)"
      using hash_reset_ok [OF table_invD(1) [OF inv]] by blast
    have "three_invs ?h' w' (replicate (nat (size_h h)) [])" using R(2) by (rule table_inv_three)
    moreover have "cmp_ok (cmp_f ?h')" using cmp by simp
    moreover have "count ?h' \<le> INT_MAX" by (simp add: INT_MAX_def)
    ultimately show ?thesis using R by blast
  qed
next
  assume a: "table_inv h w ass fs \<and> cmp_ok (cmp_f h) \<and> count h \<le> INT_MAX"
    and lt: "count h < INT_MAX"
  from a have inv: "table_inv h w ass fs" and cmp: "cmp_ok (cmp_f h)" by simp_all
  obtain r h' w' ass' fs' where R: "hash_insert (Some h) key dat w = Some (r, Some h', w')"
    "table_inv h' w' ass' fs'" "cmp_f h' = cmp_f h" "count h' \<le> count h + 1"
    using hash_insert_inv [OF inv cmp, of key dat] by blast
  have "three_invs h' w' ass'" using R(2) by (rule table_inv_three)
  moreover have "cmp_ok (cmp_f h')" using cmp by (simp only: R(3))
  moreover have "count h' \<le> INT_MAX" using R(4) lt by simp
  ultimately show "\<exists>r h' w' ass' fs'. hash_insert (Some h) key dat w = Some (r, Some h', w') \<and>
         table_inv h' w' ass' fs' \<and> three_invs h' w' ass' \<and> cmp_ok (cmp_f h') \<and>
         count h' \<le> INT_MAX"
    using R(1,2) by blast
qed

theorem invariants_preserved_witness:
  "(\<exists>h0 w1. hash_create 0 (Some key_nat) (Some cmp_nat) None w_empty = (Some h0, w1) \<and>
      table_inv h0 w1 (replicate (nat (size_h h0)) []) [] \<and>
      three_invs h0 w1 (replicate (nat (size_h h0)) []) \<and> count h0 \<le> INT_MAX) \<and>
   count h_ex = 3 \<and> three_invs h_ex w_ex [[100, 124], [148]] \<and>
   (\<exists>h' w'. hash_insert (Some h_ex) (Some 6) (Some 60) w_ex = Some (Some 60, Some h', w') \<and>
      table_inv h' w' [[100, 124, 172], [148]] [] \<and>
      three_invs h' w' [[100, 124, 172], [148]] \<and> count h' = 4 \<and> count h' \<le> INT_MAX) \<and>
   (\<exists>h' w'. hash_remove (Some h_ex) (Some 4) w_ex = Some (Some 40, Some h', w') \<and>
      table_inv h' w' [[100], [148]] [124, 172] \<and>
      three_invs h' w' [[100], [148]] \<and> count h' = 2 \<and> count h' \<le> INT_MAX) \<and>
   (\<exists>h' w'. hash_delete_if (Some h_ex) (Some argf_ex) () w_ex = Some (2, Some h', w') \<and>
      table_inv h' w' [[100], []] [148, 124, 172] \<and>
      three_invs h' w' [[100], []] \<and> count h' = 1 \<and> count h' \<le> INT_MAX) \<and>
   (\<exists>h' w'. hash_reset (Some h_ex) w_ex = Some (Some h', w') \<and>
      table_inv h' w' [[], []] [148, 124, 100, 172] \<and>
      three_invs h' w' [[], []] \<and> count h' = 0 \<and> count h' \<le> INT_MAX)"
proof -
  have p: "pool_ok w_empty []" by (simp add: pool_ok_def w_empty_def)
  obtain h0 w1 where c: "hash_create 0 (Some key_nat) (Some cmp_nat) None w_empty = (Some h0, w1)"
    by (simp add: hash_create_def HASH_DEF_SIZE_def malloc_def calloc_def Let_def w_empty_def
        sizeof_hash_def sizeof_ptr_def)
  have "(0::int) < 2 ^ 31" by simp
  note 1 = invariants_preserved [of w_empty "[]" 0 "Some key_nat" "Some cmp_nat" None h0 w1,
      THEN conjunct1, rule_format, OF conjI [OF p conjI [OF this c]]]
  have n: "count h_ex = 3" by (simp add: h_ex_def)
  then have le: "count h_ex \<le> INT_MAX" and lt: "count h_ex < INT_MAX"
    by (simp_all add: INT_MAX_def)
  note 2 = invariants_preserved [of _ _ _ _ _ _ _ _ h_ex w_ex ass_ex fs_ex,
      THEN conjunct2, rule_format, OF conjI [OF table_inv_ex conjI [OF cmp_ok_ex le]]]
  note 3 = 2 [of "Some 6" "Some 60" "Some argf_ex" "()"]
  have a: "\<exists>h0 w1. hash_create 0 (Some key_nat) (Some cmp_nat) None w_empty = (Some h0, w1) \<and>
      table_inv h0 w1 (replicate (nat (size_h h0)) []) [] \<and>
      three_invs h0 w1 (replicate (nat (size_h h0)) []) \<and> count h0 \<le> INT_MAX"
    using 1 c by blast
  have b: "three_invs h_ex w_ex [[100, 124], [148]]"
    using 3 [THEN conjunct1] by (simp only: ass_ex_def)
  have i: "\<exists>h' w'. hash_insert (Some h_ex) (Some 6) (Some 60) w_ex = Some (Some 60, Some h', w') \<and>
      table_inv h' w' [[100, 124, 172], [148]] [] \<and>
      three_invs h' w' [[100, 124, 172], [148]] \<and> count h' = 4 \<and> count h' \<le> INT_MAX"
  proof -
    obtain h' w' where E: "hash_insert (Some h_ex) (Some 6) (Some 60) w_ex = Some (Some 60, Some h', w')"
      "heap_ok h' w' [[100, 124, 172], [148]] []" "count h' = 4"
      using hash_insert_ex by blast
    from 3 [THEN conjunct2, THEN conjunct1, rule_format, OF lt] E(1)
    obtain ass' fs' where R: "table_inv h' w' ass' fs'" "three_invs h' w' ass'" "count h' \<le> INT_MAX"
      by auto
    from table_inv_pin [OF R(1) E(2)] R E show ?thesis by blast
  qed
  have r: "\<exists>h' w'. hash_remove (Some h_ex) (Some 4) w_ex = Some (Some 40, Some h', w') \<and>
      table_inv h' w' [[100], [148]] [124, 172] \<and>
      three_invs h' w' [[100], [148]] \<and> count h' = 2 \<and> count h' \<le> INT_MAX"
  proof -
    obtain h' w' where E: "hash_remove (Some h_ex) (Some 4) w_ex = Some (Some 40, Some h', w')"
      "heap_ok h' w' [[100], [148]] [124, 172]" "count h' = 2"
      using hash_remove_ex by blast
    from 2 [of "Some 4" None None "()", THEN conjunct2, THEN conjunct2, THEN conjunct1] E(1)
    obtain ass' fs' where R: "table_inv h' w' ass' fs'" "three_invs h' w' ass'" "count h' \<le> INT_MAX"
      by auto
    from table_inv_pin [OF R(1) E(2)] R E show ?thesis by blast
  qed
  have d: "\<exists>h' w'. hash_delete_if (Some h_ex) (Some argf_ex) () w_ex = Some (2, Some h', w') \<and>
      table_inv h' w' [[100], []] [148, 124, 172] \<and>
      three_invs h' w' [[100], []] \<and> count h' = 1 \<and> count h' \<le> INT_MAX"
  proof -
    obtain h' w' where E: "hash_delete_if (Some h_ex) (Some argf_ex) () w_ex = Some (2, Some h', w')"
      "heap_ok h' w' [[100], []] [148, 124, 172]" "count h' = 1"
      using hash_delete_if_ex by blast
    from 3 [THEN conjunct2, THEN conjunct2, THEN conjunct2, THEN conjunct1] E(1)
    obtain ass' fs' where R: "table_inv h' w' ass' fs'" "three_invs h' w' ass'" "count h' \<le> INT_MAX"
      by auto
    from table_inv_pin [OF R(1) E(2)] R E show ?thesis by blast
  qed
  have s: "\<exists>h' w'. hash_reset (Some h_ex) w_ex = Some (Some h', w') \<and>
      table_inv h' w' [[], []] [148, 124, 100, 172] \<and>
      three_invs h' w' [[], []] \<and> count h' = 0 \<and> count h' \<le> INT_MAX"
  proof -
    obtain h' w' where E: "hash_reset (Some h_ex) w_ex = Some (Some h', w')"
      "heap_ok h' w' [[], []] [148, 124, 100, 172]" "count h' = 0"
      using hash_reset_ex by blast
    from 3 [THEN conjunct2, THEN conjunct2, THEN conjunct2, THEN conjunct2] E(1)
    obtain ass' fs' where R: "table_inv h' w' ass' fs'" "three_invs h' w' ass'" "count h' \<le> INT_MAX"
      by auto
    from table_inv_pin [OF R(1) E(2)] R E show ?thesis by blast
  qed
  show ?thesis by (intro conjI) (rule a n b i r d s)+
qed

subsection \<open>Conditional deletion\<close>

lemma visit_ex:
  "visit argf_ex () (del_f h_ex) (map (payload w_ex) (concat ass_ex)) (ext w_ex) = ([0, 1, 1], [40, 30])"
  by (simp add: argf_ex_def h_ex_def del_log_def payload_def w_ex_def m_ex_def ass_ex_def)

text \<open>
  C5. In a table that satisfies the invariant, \<^verbatim>\<open>hash_delete_if\<close> with a predicate makes
  one pass over the entries in bucket order and chain order: \<open>visit\<close> calls the predicate
  once per entry (one result per entry) and the deletion function, if any, on the item of
  each entry whose result is greater than zero. It returns the number of those entries,
  leaves exactly the other entries in the table, in order, moves the deleted nodes to the
  free list, lowers \<open>count\<close> by the number returned and keeps the invariant. When every
  result is greater than zero the number returned is the old \<open>count\<close> and the table is
  empty. For a predicate \<open>p\<close> without effect on the caller's state, the deleted entries
  are those with \<open>0 < p item key\<close> and the caller's state is the effect of the deletion
  function on their items.
\<close>

theorem hash_delete_if_correct:
  assumes inv: "table_inv h w ass fs" and cmp: "cmp_ok (cmp_f h)"
    and v: "visit argf arg (del_f h) (map (payload w) (concat ass)) (ext w) = (rs, e')"
  shows "length rs = length (concat ass) \<and>
    (\<exists>h' w'. hash_delete_if (Some h) (Some argf) arg w =
         Some (int (length (removed (concat ass) rs)), Some h', w') \<and>
       table_inv h' w' (map (filter (\<lambda>a. a \<notin> set (removed (concat ass) rs))) ass)
         (rev (removed (concat ass) rs) @ fs) \<and>
       ext w' = e' \<and> count h' = count h - int (length (removed (concat ass) rs)) \<and>
       (\<forall>b. payload w' b = payload w b) \<and>
       ((\<forall>r\<in>set rs. 0 < r) \<longrightarrow>
          int (length (removed (concat ass) rs)) = count h \<and> count h' = 0 \<and>
          concat (map (filter (\<lambda>a. a \<notin> set (removed (concat ass) rs))) ass) = [])) \<and>
    ((\<forall>d k e. argf d k arg e = (p d k, e)) \<longrightarrow>
       rs = map (\<lambda>a. p (data (nodes w a)) (hkey (nodes w a))) (concat ass) \<and>
       removed (concat ass) rs =
         filter (\<lambda>a. 0 < p (data (nodes w a)) (hkey (nodes w a))) (concat ass) \<and>
       e' = del_all h (map (\<lambda>a. data (nodes w a)) (removed (concat ass) rs)) (ext w))"
proof (intro conjI impI)
  show lrs: "length rs = length (concat ass)" using visit_length [OF v] by simp
  obtain h' w' where R: "hash_delete_if (Some h) (Some argf) arg w =
         Some (int (length (removed (concat ass) rs)), Some h', w')"
    "table_inv h' w' (map (filter (\<lambda>a. a \<notin> set (removed (concat ass) rs))) ass)
         (rev (removed (concat ass) rs) @ fs)"
    "ext w' = e'" "count h' = count h - int (length (removed (concat ass) rs))"
    "\<forall>b. payload w' b = payload w b"
    using hash_delete_if_ok [OF inv cmp v] by blast
  have cnt: "count h = int (length (concat ass))" using table_inv_ix(1) [OF inv cmp] .
  have "int (length (removed (concat ass) rs)) = count h \<and> count h' = 0 \<and>
          concat (map (filter (\<lambda>a. a \<notin> set (removed (concat ass) rs))) ass) = []"
    if "\<forall>r\<in>set rs. 0 < r"
  proof -
    have all: "removed (concat ass) rs = concat ass" using lrs that by (rule removed_all)
    have "filter (\<lambda>a. a \<notin> set (concat ass)) (concat ass) = []" by (simp add: filter_empty_conv)
    then have "concat (map (filter (\<lambda>a. a \<notin> set (concat ass))) ass) = []"
      by (simp only: filter_concat [symmetric])
    then show ?thesis unfolding all using cnt R(4) [unfolded all] by simp
  qed
  then show "\<exists>h' w'. hash_delete_if (Some h) (Some argf) arg w =
         Some (int (length (removed (concat ass) rs)), Some h', w') \<and>
       table_inv h' w' (map (filter (\<lambda>a. a \<notin> set (removed (concat ass) rs))) ass)
         (rev (removed (concat ass) rs) @ fs) \<and>
       ext w' = e' \<and> count h' = count h - int (length (removed (concat ass) rs)) \<and>
       (\<forall>b. payload w' b = payload w b) \<and>
       ((\<forall>r\<in>set rs. 0 < r) \<longrightarrow>
          int (length (removed (concat ass) rs)) = count h \<and> count h' = 0 \<and>
          concat (map (filter (\<lambda>a. a \<notin> set (removed (concat ass) rs))) ass) = [])"
    using R by blast
next
  assume pure: "\<forall>d k e. argf d k arg e = (p d k, e)"
  let ?f = "\<lambda>a. p (data (nodes w a)) (hkey (nodes w a))"
  have vp: "visit argf arg (del_f h) (map (payload w) (concat ass)) (ext w) =
      (map ?f (concat ass),
       del_all h (map (\<lambda>a. data (nodes w a)) (filter (\<lambda>a. 0 < ?f a) (concat ass))) (ext w))"
    unfolding visit_pure [of argf arg p, OF pure [rule_format]] del_all_def
    by (simp add: filter_map comp_def payload_def case_prod_beta)
  show rs: "rs = map ?f (concat ass)" using v vp by simp
  show rm: "removed (concat ass) rs = filter (\<lambda>a. 0 < ?f a) (concat ass)"
    unfolding rs by (rule removed_map)
  show "e' = del_all h (map (\<lambda>a. data (nodes w a)) (removed (concat ass) rs)) (ext w)"
    unfolding rm using v vp by simp
qed

theorem hash_delete_if_correct_witness:
  "\<exists>h' w'. hash_delete_if (Some h_ex) (Some argf_ex) () w_ex = Some (2, Some h', w') \<and>
     table_inv h' w' [[100], []] [148, 124, 172] \<and> ext w' = [40, 30] \<and> count h' = 1"
proof -
  have "\<exists>h' w'. hash_delete_if (Some h_ex) (Some argf_ex) () w_ex =
         Some (int (length (removed (concat ass_ex) [0, 1, 1])), Some h', w') \<and>
       table_inv h' w' (map (filter (\<lambda>a. a \<notin> set (removed (concat ass_ex) [0, 1, 1]))) ass_ex)
         (rev (removed (concat ass_ex) [0, 1, 1]) @ fs_ex) \<and>
       ext w' = [40, 30] \<and> count h' = count h_ex - int (length (removed (concat ass_ex) [0, 1, 1]))"
    using hash_delete_if_correct [OF table_inv_ex cmp_ok_ex visit_ex] by blast
  then show ?thesis by (simp add: ass_ex_def fs_ex_def h_ex_def)
qed

subsection \<open>Reset\<close>

text \<open>
  C8. On a well-formed table \<^verbatim>\<open>hash_reset\<close> returns the table object with only its bucket
  contents and its count changed: \<open>count\<close> is 0, \<^verbatim>\<open>hash_count\<close> gives 0, \<^verbatim>\<open>hash_is_empty\<close>
  gives 1, every bucket is \<^verbatim>\<open>NULL\<close> (every chain is empty), and the size, the length of
  the bucket array and the three callbacks are those of before. The deletion function
  has been called on every item and all nodes are on the free list.
\<close>

theorem hash_reset_empty:
  assumes "heap_ok h w ass fs"
  shows "\<exists>h' w'. hash_reset (Some h) w = Some (Some h', w') \<and>
     h' = h\<lparr>table := replicate (nat (size_h h)) None, count := 0\<rparr> \<and>
     count h' = 0 \<and> hash_count (Some h') w' = (0, w') \<and> hash_is_empty (Some h') w' = (1, w') \<and>
     list_all (\<lambda>p. p = None) (table h') \<and>
     table_inv h' w' (replicate (nat (size_h h)) []) (rev (concat ass) @ fs) \<and>
     size_h h' = size_h h \<and> length (table h') = length (table h) \<and>
     cmp_f h' = cmp_f h \<and> del_f h' = del_f h \<and> key_f h' = key_f h \<and>
     ext w' = del_all h (map (\<lambda>a. data (nodes w a)) (concat ass)) (ext w) \<and>
     errno w' = errno w"
proof -
  let ?h' = "h\<lparr>table := replicate (nat (size_h h)) None, count := 0\<rparr>"
  obtain w' where R: "hash_reset (Some h) w = Some (Some ?h', w')"
    "table_inv ?h' w' (replicate (nat (size_h h)) []) (rev (concat ass) @ fs)"
    "ext w' = del_all h (map (\<lambda>a. data (nodes w a)) (concat ass)) (ext w)"
    "errno w' = errno w"
    using hash_reset_ok [OF assms] by blast
  have "length (table h) = nat (size_h h)" using heap_okD(3) [OF assms] .
  then show ?thesis
    using R by (simp add: hash_count_def hash_is_empty_def list_all_iff)
qed

theorem hash_reset_empty_witness:
  "\<exists>h' w'. hash_reset (Some h_ex) w_ex = Some (Some h', w') \<and>
     count h' = 0 \<and> hash_is_empty (Some h') w' = (1, w') \<and> table h' = [None, None] \<and>
     size_h h' = 2 \<and> ext w' = [20, 40, 30]"
proof -
  have "\<exists>h' w'. hash_reset (Some h_ex) w_ex = Some (Some h', w') \<and>
     h' = h_ex\<lparr>table := replicate (nat (size_h h_ex)) None, count := 0\<rparr> \<and>
     hash_is_empty (Some h') w' = (1, w') \<and>
     ext w' = del_all h_ex (map (\<lambda>a. data (nodes w_ex a)) (concat ass_ex)) (ext w_ex)"
    using hash_reset_empty [OF heap_ok_ex] by blast
  moreover have "del_all h_ex (map (\<lambda>a. data (nodes w_ex a)) (concat ass_ex)) (ext w_ex) = [20, 40, 30]"
    by (simp add: h_ex_def del_all_def del_log_def ass_ex_def w_ex_def m_ex_def)
  moreover have "replicate (nat (size_h h_ex)) None = [None, None]"
    by (simp add: h_ex_def numeral_2_eq_2)
  ultimately show ?thesis by (auto simp: h_ex_def)
qed

end
